theory Spec2Isabelle
  imports Main "HOL-Library.Word"
begin

section \<open>Basic types\<close>

text \<open>
  The runtime identifies every array by a 64-bit id (\<open>id_type\<close>).  Words of the flat
  buffers exchanged with compiled code are \<open>intptr_t\<close>, which \<open>jit::init\<close> asserts to be
  as wide as \<open>uint64_t\<close>.  Ranks and word counts are small non-negative numbers (an
  array has a handful of dimensions, a batch a handful of results), so they are natural
  numbers here; none of the sums below comes near \<open>2 ^ 64\<close>.
\<close>

type_synonym id_type = "64 word"
type_synonym intptr_t = "64 word"

text \<open>
  The element-type tags of \<open>CppTypes.hpp\<close>.  \<open>DTYPE_LAST\<close> is the tag a default-constructed
  \<open>Deferred\<close> carries; it stands for every tag outside the supported set.
\<close>

datatype DTypeId =
  FLOAT64 | FLOAT32 | INT64 | INT32 | INT16 | INT8
  | UINT64 | UINT32 | UINT16 | UINT8 | BOOL | DTYPE_LAST

text \<open>
  Every \<open>throw\<close> and every failed \<open>assert\<close> of the source is a value of this type.  The
  source throws \<open>std::runtime_error\<close> with a message; the constructors carry the names the
  specification gives these failures.
\<close>

datatype error =
  UnknownDtype           \<comment> \<open>\<open>"unknown dtype"\<close>\<close>
  | UnknownGuid id_type  \<comment> \<open>\<open>Registry::get\<close> on an id that is not registered\<close>
  | InvariantViolation   \<comment> \<open>a failed \<open>assert\<close>\<close>
  | PassFailure          \<comment> \<open>\<open>"failed to run pass manager"\<close>\<close>
  | CompileFailure       \<comment> \<open>\<open>"failed to construct an execution engine"\<close>\<close>
  | LookupFailure        \<comment> \<open>\<open>"JIT invocation failed"\<close>\<close>
  | BufferOverrun        \<comment> \<open>a read past the end of the output vector\<close>
  | UnknownServiceOp     \<comment> \<open>\<open>"MLIR generation for unkown service operation requested."\<close>\<close>

section \<open>IR types\<close>

text \<open>
  The part of the compiler framework's type system the dependency manager touches:
  floating point types, integer types with a width and a signedness, and the array type
  \<open>PTensorType\<close> with its shape, element type and environment attributes.
\<close>

datatype signedness = Signless | Signed | Unsigned

datatype env_attr =
  DistEnvAttr "64 word" "int list" "int list list"
    \<comment> \<open>team, local offsets, shapes of left halo, owned part and right halo\<close>
  | DistEnvAttrRank "64 word" nat
    \<comment> \<open>team and rank only\<close>
  | GPUEnvAttr string

datatype mlir_type =
  F64Type
  | F32Type
  | IntegerType nat signedness
  | PTensorType "int list" mlir_type "env_attr list"


text \<open>
  A C array read through a pointer: its first \<open>n\<close> elements.  Reading a C array past
  its end is undefined; the list read past its end is unspecified as well.
\<close>

definition c_array :: "'a list \<Rightarrow> nat \<Rightarrow> 'a list" where
  "c_array xs n = map (\<lambda>i. xs ! i) [0..<n]"

fun mkEnvs :: "nat \<Rightarrow> string \<Rightarrow> 64 word \<Rightarrow> env_attr list" where
  "mkEnvs rank device team =
     (if team \<noteq> 0 then [DistEnvAttrRank team rank] else []) @
     (if device \<noteq> [] then [GPUEnvAttr device] else [])"

text \<open>
  \<open>getTType\<close>: the switch over the tag first (so an unknown tag fails before anything is
  built), then the three shapes of array type.  \<open>lOffs\<close> is read as \<open>rank\<close> signed words.
\<close>

fun getEType :: "DTypeId \<Rightarrow> error + mlir_type" where
  "getEType FLOAT64 = Inr F64Type"
| "getEType FLOAT32 = Inr F32Type"
| "getEType INT64 = Inr (IntegerType 64 Signless)"
| "getEType UINT64 = Inr (IntegerType 64 Signless)"
| "getEType INT32 = Inr (IntegerType 32 Signless)"
| "getEType UINT32 = Inr (IntegerType 32 Signless)"
| "getEType INT16 = Inr (IntegerType 16 Signless)"
| "getEType UINT16 = Inr (IntegerType 16 Signless)"
| "getEType INT8 = Inr (IntegerType 8 Signless)"
| "getEType UINT8 = Inr (IntegerType 8 Signless)"
| "getEType BOOL = Inr (IntegerType 1 Signless)"
| "getEType DTYPE_LAST = Inl UnknownDtype"

definition getTType ::
  "DTypeId \<Rightarrow> int list \<Rightarrow> int list \<Rightarrow> int list \<Rightarrow> int list \<Rightarrow> string \<Rightarrow> 64 word
     \<Rightarrow> 64 word list \<Rightarrow> error + mlir_type" where
  "getTType dtype gShape lhShape ownShape rhShape device team lOffs =
     (case getEType dtype of
        Inl e \<Rightarrow> Inl e
      | Inr etyp \<Rightarrow>
          (let rank = length gShape;
               envs = mkEnvs rank device 0
           in if team \<noteq> 0 then
                if rank \<noteq> 0 then
                  Inr (PTensorType gShape etyp
                        (envs @ [DistEnvAttr team (map sint (c_array lOffs rank))
                                   [lhShape, ownShape, rhShape]]))
                else
                  Inr (PTensorType [] etyp (envs @ [DistEnvAttrRank team 0]))
              else
                Inr (PTensorType ownShape etyp envs)))"


fun isSignless :: "mlir_type \<Rightarrow> bool" where
  "isSignless (IntegerType width sg) = (sg = Signless)"
| "isSignless (PTensorType shp etyp envs) = isSignless etyp"
| "isSignless type = True"

section \<open>Sizes of descriptors\<close>

text \<open>\<open>memref_sz\<close>: the number of words of a memref descriptor of a given rank.\<close>

definition memref_sz :: "nat \<Rightarrow> nat" where
  "memref_sz rank = 3 + 2 * rank"

text \<open>
  Modelled from the spec: \<open>ptensor_sz\<close> is declared in \<open>jit/mlir.hpp\<close>, which is not among
  the sources.  The specification gives it as \<open>ptensor_words\<close>: a distributed array of
  rank above 0 is returned as three memrefs (left halo, local data, right halo) followed
  by a rank-1 memref of local offsets; every other array as one memref.
\<close>

definition ptensor_sz :: "nat \<Rightarrow> bool \<Rightarrow> nat" where
  "ptensor_sz rank isDist =
     (if isDist \<and> rank \<noteq> 0 then 3 * memref_sz rank + memref_sz 1 else memref_sz rank)"

section \<open>Creation front-ends\<close>

text \<open>
  \<open>mkTeam\<close> of \<open>Creator.cpp\<close>; \<open>nranks\<close> is what \<open>getTransceiver()->nranks()\<close> returns.
\<close>

definition mkTeam :: "int \<Rightarrow> 64 word \<Rightarrow> 64 word" where
  "mkTeam nranks team = (if team \<noteq> 0 \<and> nranks > 1 then 1 else 0)"

text \<open>
  The deferred nodes of the three creation operations.  The base class stores the id
  (\<open>NOGUID\<close>, here \<open>None\<close>, until the node is registered), the element type, the rank,
  the team and the balanced flag, in the order the constructors of \<open>Creator.cpp\<close> pass
  them: \<open>Deferred(dtype, rank, team, true)\<close>.
\<close>

record Deferred =
  d_guid :: "id_type option"
  d_dtype :: DTypeId
  d_rank :: nat
  d_team :: "64 word"
  d_balanced :: bool

definition Deferred_ctor :: "DTypeId \<Rightarrow> nat \<Rightarrow> 64 word \<Rightarrow> bool \<Rightarrow> Deferred" where
  "Deferred_ctor dt rank team balanced =
     \<lparr>d_guid = None, d_dtype = dt, d_rank = rank, d_team = team, d_balanced = balanced\<rparr>"

record 'v DeferredFull = Deferred +
  full_shape :: "int list"
  full_val :: 'v

record DeferredArange = Deferred +
  arange_start :: "64 word"
  arange_end :: "64 word"
  arange_step :: "64 word"

record 'r DeferredLinspace = Deferred +
  linspace_start :: 'r
  linspace_end :: 'r
  linspace_num :: "64 word"
  linspace_endpoint :: bool

definition DeferredFull_ctor ::
  "int list \<Rightarrow> 'v \<Rightarrow> DTypeId \<Rightarrow> 64 word \<Rightarrow> 'v DeferredFull" where
  "DeferredFull_ctor shape val dtype team =
     Deferred.extend (Deferred_ctor dtype (length shape) team True)
       (DeferredFull.fields shape val)"

definition DeferredArange_ctor ::
  "64 word \<Rightarrow> 64 word \<Rightarrow> 64 word \<Rightarrow> DTypeId \<Rightarrow> 64 word \<Rightarrow> DeferredArange" where
  "DeferredArange_ctor start end' step dtype team =
     Deferred.extend (Deferred_ctor dtype 1 team True)
       (DeferredArange.fields start end' step)"

definition DeferredLinspace_ctor ::
  "'r \<Rightarrow> 'r \<Rightarrow> 64 word \<Rightarrow> bool \<Rightarrow> DTypeId \<Rightarrow> 64 word \<Rightarrow> 'r DeferredLinspace" where
  "DeferredLinspace_ctor start end' num endpoint dtype team =
     Deferred.extend (Deferred_ctor dtype 1 team True)
       (DeferredLinspace.fields start end' num endpoint)"

text \<open>
  \<open>Creator::full\<close>, \<open>Creator::arange\<close> and \<open>Creator::linspace\<close> up to the node they hand to
  \<open>defer\<close>.  \<open>mk_scalar\<close> (the conversion of the Python value) and the floating-point type
  of \<open>linspace\<close>'s bounds are parameters.
\<close>

definition Creator_full ::
  "int \<Rightarrow> ('p \<Rightarrow> DTypeId \<Rightarrow> 'v) \<Rightarrow> int list \<Rightarrow> 'p \<Rightarrow> DTypeId \<Rightarrow> 64 word \<Rightarrow> 'v DeferredFull"
  where
  "Creator_full nranks mk_scalar shape val dtype team =
     (let v = mk_scalar val dtype
      in DeferredFull_ctor shape v dtype (mkTeam nranks team))"

definition Creator_arange ::
  "int \<Rightarrow> 64 word \<Rightarrow> 64 word \<Rightarrow> 64 word \<Rightarrow> DTypeId \<Rightarrow> 64 word \<Rightarrow> DeferredArange" where
  "Creator_arange nranks start end' step dtype team =
     DeferredArange_ctor start end' step dtype (mkTeam nranks team)"

definition Creator_linspace ::
  "int \<Rightarrow> 'r \<Rightarrow> 'r \<Rightarrow> 64 word \<Rightarrow> bool \<Rightarrow> DTypeId \<Rightarrow> 64 word \<Rightarrow> 'r DeferredLinspace" where
  "Creator_linspace nranks start end' num endpoint dtype team =
     DeferredLinspace_ctor start end' num endpoint dtype (mkTeam nranks team)"

section \<open>Values, futures and the Registry\<close>

text \<open>
  An IR value is a function argument (with its position at the time it was taken), the
  result of an operation a node emitted, or the null value.
\<close>

datatype mlir_value =
  BlockArgument nat mlir_type
  | OpResult nat mlir_type
  | NullValue

fun getType :: "mlir_value \<Rightarrow> mlir_type option" where
  "getType (BlockArgument idx typ) = Some typ"
| "getType (OpResult n typ) = Some typ"
| "getType NullValue = None"

text \<open>
  \<open>imex::dist::isDist\<close> belongs to the compiler framework: an array type is distributed
  when one of its environments is a distribution environment.
\<close>

fun isDistEnv :: "env_attr \<Rightarrow> bool" where
  "isDistEnv (DistEnvAttr team lOffs shapes) = True"
| "isDistEnv (DistEnvAttrRank team rank) = True"
| "isDistEnv (GPUEnvAttr device) = False"

fun isDist :: "mlir_type \<Rightarrow> bool" where
  "isDist (PTensorType shp etyp envs) = list_ex isDistEnv envs"
| "isDist type = False"

text \<open>
  What the dependency manager reads of a materialised array (\<open>DDPTensorImpl\<close>) and of the
  future that yields it.  The halo shapes are pointers that may be null.  \<open>t_args\<close> are
  the descriptor words \<open>add_to_args\<close> appends to an argument list.
\<close>

record DDPTensorImpl =
  t_dtype :: DTypeId
  t_ndims :: nat
  t_shape :: "int list"
  t_lh_shape :: "int list option"
  t_local_shape :: "int list"
  t_rh_shape :: "int list option"
  t_local_offsets :: "64 word list"
  t_args :: "intptr_t list"

record future =
  f_device :: string
  f_team :: "64 word"
  f_impl :: DDPTensorImpl

text \<open>
  Modelled from the spec: the Registry (\<open>Registry.cpp\<close>) is not among the sources.  It is
  the process-wide mapping from ids to futures; \<open>get\<close> fails on an id that is absent,
  \<open>del\<close> removes one.
\<close>

type_synonym Registry = "id_type \<rightharpoonup> future"

definition Registry_get :: "Registry \<Rightarrow> id_type \<Rightarrow> error + future" where
  "Registry_get reg guid = (case reg guid of None \<Rightarrow> Inl (UnknownGuid guid) | Some fut \<Rightarrow> Inr fut)"

definition Registry_del :: "Registry \<Rightarrow> id_type \<Rightarrow> Registry" where
  "Registry_del reg guid = reg(guid := None)"

section \<open>The dependency manager\<close>

text \<open>
  Modelled from the spec: the container types of the members \<open>_ivm\<close>, \<open>_icm\<close>, \<open>_icr\<close>,
  \<open>_irm\<close> and \<open>_args\<close> are declared in \<open>jit/mlir.hpp\<close>, which is not among the sources.
  The source uses them as maps (\<open>find\<close>, \<open>operator[]\<close>, \<open>erase\<close>, iteration) and \<open>_args\<close>
  as a vector.  According to the specification \<open>ivm\<close> is an ordered mapping that
  preserves insertion order, so it is a list of pairs with distinct keys: assigning to
  a key that is present replaces its value in place, assigning to a new key appends.
  \<open>_icr\<close>, which \<open>deliver\<close> iterates, is kept the same way; \<open>_icm\<close> and \<open>_irm\<close> are only
  looked up by key.
\<close>

fun om_assign :: "'k \<Rightarrow> 'v \<Rightarrow> ('k \<times> 'v) list \<Rightarrow> ('k \<times> 'v) list" where
  "om_assign k v [] = [(k, v)]"
| "om_assign k v (p # m) = (if fst p = k then (k, v) # m else p # om_assign k v m)"

definition om_erase :: "'k \<Rightarrow> ('k \<times> 'v) list \<Rightarrow> ('k \<times> 'v) list" where
  "om_erase k m = filter (\<lambda>p. fst p \<noteq> k) m"

text \<open>
  The operations the builder holds for the function under construction, as far as the
  dependency manager emits them.
\<close>

datatype mlir_op =
  ConstantOp
  | CallOp string
  | ReturnOp "mlir_value list"
  | NodeOp nat

text \<open>
  The state the dependency manager works on: its own members, the signature of the
  function \<open>_func\<close> (argument and result types), the operations emitted so far and the
  Registry.  \<open>'c\<close> is the type of delivery callbacks, \<open>'r\<close> of ready callbacks.
\<close>

record ('c, 'r) DepManager =
  ivm :: "(id_type \<times> mlir_value) list"
  args :: "(id_type \<times> future) list"
  icm :: "id_type \<rightharpoonup> 'c"
  icr :: "(id_type \<times> 'r list) list"
  irm :: "id_type \<rightharpoonup> (nat \<times> bool)"
  func_args :: "mlir_type list"
  func_results :: "mlir_type list"
  body :: "mlir_op list"
  registry :: Registry

definition DepManager_new :: "Registry \<Rightarrow> ('c, 'r) DepManager" where
  "DepManager_new reg =
     \<lparr>ivm = [], args = [], icm = Map.empty, icr = [], irm = Map.empty,
      func_args = [], func_results = [], body = [], registry = reg\<rparr>"

text \<open>\<open>insertArgument\<close> and \<open>insertResult\<close> of a function: a type enters the signature at
  an index.\<close>

definition insert_at :: "nat \<Rightarrow> 'a \<Rightarrow> 'a list \<Rightarrow> 'a list" where
  "insert_at idx x xs = take idx xs @ [x] @ drop idx xs"

text \<open>The type \<open>getDependent\<close> synthesises for the argument that imports a future.\<close>

definition arg_type :: "future \<Rightarrow> error + mlir_type" where
  "arg_type fut =
     (let impl = f_impl fut;
          rank = t_ndims impl;
          lhShape = (case t_lh_shape impl of None \<Rightarrow> replicate rank 0 | Some l \<Rightarrow> c_array l rank);
          ownShape = c_array (t_local_shape impl) rank;
          rhShape = (case t_rh_shape impl of None \<Rightarrow> replicate rank 0 | Some l \<Rightarrow> c_array l rank)
      in getTType (t_dtype impl) (c_array (t_shape impl) rank) lhShape ownShape rhShape
           (f_device fut) (f_team fut) (t_local_offsets impl))"

definition getDependent ::
  "id_type \<Rightarrow> ('c, 'r) DepManager \<Rightarrow> error + (mlir_value \<times> ('c, 'r) DepManager)" where
  "getDependent guid s =
     (case map_of (ivm s) guid of
        None \<Rightarrow>
          (let idx = length (args s) in
           case Registry_get (registry s) guid of
             Inl e \<Rightarrow> Inl e
           | Inr fut \<Rightarrow>
               (case arg_type fut of
                  Inl e \<Rightarrow> Inl e
                | Inr typ \<Rightarrow>
                    (let val = BlockArgument idx typ
                     in Inr (val, s\<lparr>func_args := insert_at idx typ (func_args s),
                                    args := args s @ [(guid, fut)],
                                    ivm := om_assign guid val (ivm s)\<rparr>))))
      | Some d \<Rightarrow> Inr (d, s))"

fun store_inputs_loop ::
  "(id_type \<times> future) list \<Rightarrow> intptr_t list \<Rightarrow> ('c, 'r) DepManager
     \<Rightarrow> intptr_t list \<times> ('c, 'r) DepManager" where
  "store_inputs_loop [] res s = (res, s)"
| "store_inputs_loop (a # as) res s =
     store_inputs_loop as (res @ t_args (f_impl (snd a)))
       (s\<lparr>ivm := om_erase (fst a) (ivm s), icm := (icm s)(fst a := None)\<rparr>)"

definition store_inputs :: "('c, 'r) DepManager \<Rightarrow> intptr_t list \<times> ('c, 'r) DepManager" where
  "store_inputs s = store_inputs_loop (args s) [] s"

definition addVal ::
  "id_type \<Rightarrow> mlir_value \<Rightarrow> 'c \<Rightarrow> ('c, 'r) DepManager \<Rightarrow> error + ('c, 'r) DepManager" where
  "addVal guid val cb s =
     (if map_of (ivm s) guid \<noteq> None then Inl InvariantViolation
      else Inr (s\<lparr>ivm := om_assign guid val (ivm s), icm := (icm s)(guid \<mapsto> cb)\<rparr>))"

definition addReady :: "id_type \<Rightarrow> 'r \<Rightarrow> ('c, 'r) DepManager \<Rightarrow> ('c, 'r) DepManager" where
  "addReady guid cb s =
     s\<lparr>icr := om_assign guid
                (case map_of (icr s) guid of None \<Rightarrow> [cb] | Some cbs \<Rightarrow> cbs @ [cb]) (icr s)\<rparr>"

definition drop_guid :: "id_type \<Rightarrow> ('c, 'r) DepManager \<Rightarrow> ('c, 'r) DepManager" where
  "drop_guid guid s =
     s\<lparr>ivm := om_erase guid (ivm s),
       icm := (icm s)(guid := None),
       icr := om_erase guid (icr s),
       registry := Registry_del (registry s) guid\<rparr>"

text \<open>
  The loop of \<open>handleResult\<close> over \<open>_ivm\<close>.  It carries the index, the size counter, the
  vector of return values (allocated with one null entry per element of \<open>_ivm\<close>), the
  result types of the function and \<open>_irm\<close>; it returns the entries it went through, each
  with its value cleared.  Taking the type of a null value, or casting a type that is
  not an array type, is a failed assertion.
\<close>

fun handleResult_loop ::
  "(id_type \<times> mlir_value) list \<Rightarrow> nat \<Rightarrow> nat \<Rightarrow> mlir_value list \<Rightarrow> mlir_type list
     \<Rightarrow> (id_type \<rightharpoonup> (nat \<times> bool))
     \<Rightarrow> error + ((id_type \<times> mlir_value) list \<times> nat \<times> mlir_value list \<times> mlir_type list
                  \<times> (id_type \<rightharpoonup> (nat \<times> bool)))" where
  "handleResult_loop [] idx sz ret_values results rm = Inr ([], sz, ret_values, results, rm)"
| "handleResult_loop (v # vs) idx sz ret_values results rm =
     (case getType (snd v) of
        Some (PTensorType shp etyp envs) \<Rightarrow>
          (let typ = PTensorType shp etyp envs;
               dist = isDist typ;
               rank = length shp
           in case handleResult_loop vs (Suc idx) (sz + ptensor_sz rank dist)
                     (ret_values[idx := snd v]) (insert_at idx typ results)
                     (rm(fst v \<mapsto> (rank, dist))) of
                Inl e \<Rightarrow> Inl e
              | Inr (vs', r) \<Rightarrow> Inr ((fst v, NullValue) # vs', r))
      | _ \<Rightarrow> Inl InvariantViolation)"

definition handleResult ::
  "bool \<Rightarrow> ('c, 'r) DepManager \<Rightarrow> error + (nat \<times> ('c, 'r) DepManager)" where
  "handleResult has_itac s =
     (case handleResult_loop (ivm s) 0 0 (replicate (length (ivm s)) NullValue)
             (func_results s) (irm s) of
        Inl e \<Rightarrow> Inl e
      | Inr (ivm', sz, ret_values, results, rm) \<Rightarrow>
          Inr (2 * sz,
               s\<lparr>ivm := ivm', func_results := results, irm := rm,
                 body := (if has_itac
                          then [CallOp ''VT_begin''] @ body s @ [ConstantOp, CallOp ''VT_end'']
                          else body s) @ [ReturnOp ret_values]\<rparr>))"

text \<open>
  \<open>deliver\<close> decodes the flat output vector.  A memref descriptor is the words
  \<open>allocated, aligned, offset, sizes[rank], strides[rank]\<close>; \<open>getMR\<close> reads one at the
  start of \<open>buff\<close> and returns its length.
\<close>

record memref =
  allocated :: intptr_t
  aligned :: intptr_t
  offset :: intptr_t
  sizes :: "intptr_t list"
  strides :: "intptr_t list"

definition getMR :: "nat \<Rightarrow> intptr_t list \<Rightarrow> memref \<times> nat" where
  "getMR rank buff =
     (\<lparr>allocated = buff ! 0, aligned = buff ! 1, offset = buff ! 2,
       sizes = c_array (drop 3 buff) rank,
       strides = c_array (drop (3 + rank) buff) rank\<rparr>,
      memref_sz rank)"

text \<open>
  One call of a delivery callback: the id whose callback is called, the callback, the
  rank, the left halo, the local data and the right halo (the halos are absent for a
  local or 0-rank array: the callback gets null pointers), and the local offsets as the
  pair \<open>lo_allocated\<close>, \<open>lo_aligned + lo_offset\<close> (the sum is taken on a pointer to
  64-bit words, so it advances by 8 bytes for each unit of the offset).
\<close>

record 'c delivery =
  dl_guid :: id_type
  dl_cb :: 'c
  dl_rank :: nat
  dl_lhsHalo :: "memref option"
  dl_lData :: memref
  dl_rhsHalo :: "memref option"
  dl_lo :: "(intptr_t \<times> intptr_t) option"

text \<open>
  The loop of \<open>deliver\<close> over \<open>_ivm\<close>, with the position in the output vector.  A missing
  callback is \<open>assert(false)\<close>.  \<open>_irm[guid]\<close> on an absent id inserts and yields the
  default pair.  A descriptor that does not lie within the vector is an error here;
  the C++ reads past the end of the vector.
\<close>

fun deliver_loop ::
  "(id_type \<times> mlir_value) list \<Rightarrow> nat \<Rightarrow> intptr_t list \<Rightarrow> (id_type \<rightharpoonup> 'c)
     \<Rightarrow> (id_type \<rightharpoonup> (nat \<times> bool))
     \<Rightarrow> error + ('c delivery list \<times> nat \<times> (id_type \<rightharpoonup> (nat \<times> bool)))" where
  "deliver_loop [] pos output cm rm = Inr ([], pos, rm)"
| "deliver_loop (r # rs) pos output cm rm =
     (let guid = fst r in
      case cm guid of
        None \<Rightarrow> Inl InvariantViolation
      | Some cb \<Rightarrow>
          (let tmp = (case rm guid of None \<Rightarrow> (0, False) | Some p \<Rightarrow> p);
               rm1 = rm(guid \<mapsto> tmp);
               rank = fst tmp;
               dist = snd tmp
           in if rank > 0 \<and> dist then
                if pos + 3 * memref_sz rank + memref_sz 1 > length output then Inl BufferOverrun
                else
                  (let (t0, n0) = getMR rank (drop pos output);
                       pos0 = pos + n0;
                       (t1, n1) = getMR rank (drop pos0 output);
                       pos1 = pos0 + n1;
                       (t2, n2) = getMR rank (drop pos1 output);
                       pos2 = pos1 + n2;
                       lo_allocated = output ! pos2;
                       lo_aligned = output ! (pos2 + 1);
                       lo_offset = output ! (pos2 + 2);
                       pos3 = pos2 + memref_sz 1;
                       d = \<lparr>dl_guid = guid, dl_cb = cb, dl_rank = rank, dl_lhsHalo = Some t0,
                            dl_lData = t1, dl_rhsHalo = Some t2,
                            dl_lo = Some (lo_allocated, lo_aligned + 8 * lo_offset)\<rparr>
                   in case deliver_loop rs pos3 output cm rm1 of
                        Inl e \<Rightarrow> Inl e
                      | Inr (ds, p, rm') \<Rightarrow> Inr (d # ds, p, rm'))
              else
                if pos + memref_sz rank > length output then Inl BufferOverrun
                else
                  (let (t1, n1) = getMR rank (drop pos output);
                       pos1 = pos + n1;
                       d = \<lparr>dl_guid = guid, dl_cb = cb, dl_rank = rank, dl_lhsHalo = None,
                            dl_lData = t1, dl_rhsHalo = None, dl_lo = None\<rparr>
                   in case deliver_loop rs pos1 output cm rm1 of
                        Inl e \<Rightarrow> Inl e
                      | Inr (ds, p, rm') \<Rightarrow> Inr (d # ds, p, rm'))))"

text \<open>The ready callbacks fired after the results, each with its id.\<close>

definition ready_signals :: "(id_type \<times> 'r list) list \<Rightarrow> ('r \<times> id_type) list" where
  "ready_signals cr = concat (map (\<lambda>readyV. map (\<lambda>cb. (cb, fst readyV)) (snd readyV)) cr)"

definition deliver ::
  "intptr_t list \<Rightarrow> nat \<Rightarrow> ('c, 'r) DepManager
     \<Rightarrow> error + ('c delivery list \<times> ('r \<times> id_type) list \<times> ('c, 'r) DepManager)" where
  "deliver outputV sz s =
     (case deliver_loop (ivm s) 0 outputV (icm s) (irm s) of
        Inl e \<Rightarrow> Inl e
      | Inr (ds, pos, rm) \<Rightarrow> Inr (ds, ready_signals (icr s), s\<lparr>irm := rm\<rparr>))"

section \<open>The JIT engine\<close>

text \<open>
  What \<open>JIT::run\<close> uses of the compiler framework and of the compiled code is a
  parameter: the printer of a module, the SHA-1 digest (20 bytes), the declarations the
  tracing instrumentation adds to a module, the pass pipeline (which lowers the module,
  or fails), the construction of an execution engine, the lookup of a packed entry point
  and the words the entry point leaves in the output vector.
\<close>

record 'm ExecutionEngine =
  ee_id :: nat
  ee_module :: 'm

datatype arg_addr =
  OutPtrAddr          \<comment> \<open>the address of the pointer to the output buffer\<close>
  | InpSlotAddr nat   \<comment> \<open>the address of element \<open>i\<close> of the input vector\<close>

record ('m, 'f) jit_ext =
  print_module :: "'m \<Rightarrow> string"
  sha1 :: "string \<Rightarrow> 160 word"
  has_itac :: bool
  add_itac_decls :: "'m \<Rightarrow> 'm"
  pm_run :: "'m \<Rightarrow> 'm option"
  ee_create :: "'m \<Rightarrow> bool"
  lookupPacked :: "'m ExecutionEngine \<Rightarrow> string \<Rightarrow> 'f option"
  invoke :: "'f \<Rightarrow> arg_addr list \<Rightarrow> intptr_t list \<Rightarrow> nat \<Rightarrow> intptr_t"

text \<open>
  The state of the engine that matters here: the cache switch, the static engine cache
  of \<open>run\<close>, and the number of engines constructed so far, which gives every new engine
  its identity.
\<close>

record 'm JIT =
  useCache :: bool
  engineCache :: "160 word \<rightharpoonup> 'm ExecutionEngine"
  engines_created :: nat

definition createExecutionEngine ::
  "('m, 'f) jit_ext \<Rightarrow> 'm JIT \<Rightarrow> 'm \<Rightarrow> error + ('m ExecutionEngine \<times> 'm JIT)" where
  "createExecutionEngine ext j module =
     (case pm_run ext module of
        None \<Rightarrow> Inl PassFailure
      | Some lowered \<Rightarrow>
          if \<not> ee_create ext lowered then Inl CompileFailure
          else Inr (\<lparr>ee_id = engines_created j, ee_module = lowered\<rparr>,
                    j\<lparr>engines_created := Suc (engines_created j)\<rparr>))"

text \<open>
  The first half of \<open>run\<close>: the engine to use, from the cache or freshly built.  In
  \<open>engineCache[cksm] = createExecutionEngine(module)\<close> the right operand is evaluated
  first (the source is C++17: it uses an \<open>if\<close> with an initialiser), so a construction
  that throws leaves the cache as it was.
\<close>

definition run_engine ::
  "('m, 'f) jit_ext \<Rightarrow> 'm JIT \<Rightarrow> 'm \<Rightarrow> error + ('m ExecutionEngine \<times> 'm JIT)" where
  "run_engine ext j module =
     (if useCache j then
        (let cksm = sha1 ext (print_module ext module) in
         case engineCache j cksm of
           None \<Rightarrow>
             (case createExecutionEngine ext j module of
                Inl e \<Rightarrow> Inl e
              | Inr (eng, j') \<Rightarrow> Inr (eng, j'\<lparr>engineCache := (engineCache j')(cksm \<mapsto> eng)\<rparr>))
         | Some eng \<Rightarrow> Inr (eng, j))
      else createExecutionEngine ext j module)"

text \<open>The second half: the packed argument vector, the output vector and the call.\<close>

definition pack_args :: "nat \<Rightarrow> intptr_t list \<Rightarrow> arg_addr list" where
  "pack_args osz inp =
     (if osz \<noteq> 0 then [OutPtrAddr] else []) @ map InpSlotAddr [0..<length inp]"

definition run ::
  "('m, 'f) jit_ext \<Rightarrow> 'm JIT \<Rightarrow> 'm \<Rightarrow> string \<Rightarrow> intptr_t list \<Rightarrow> nat
     \<Rightarrow> (error + intptr_t list) \<times> 'm JIT" where
  "run ext j module fname inp osz =
     (let module1 = (if has_itac ext then add_itac_decls ext module else module) in
      case run_engine ext j module1 of
        Inl e \<Rightarrow> (Inl e, j)
      | Inr (eng, j') \<Rightarrow>
          (case lookupPacked ext eng (''_mlir_ciface_'' @ fname) of
             None \<Rightarrow> (Inl LookupFailure, j')
           | Some jittedFuncPtr \<Rightarrow>
               (let packed = pack_args osz inp;
                    out = map (invoke ext jittedFuncPtr packed inp) [0..<osz]
                in (Inr out, j'))))"

text \<open>
  The engine state of a fresh process, and the calls of \<open>run\<close> a process makes one
  after the other on the same static cache.  A call that throws does not end the
  process: the next batch starts from the engine state the failed call left.
\<close>

definition JIT_new :: "bool \<Rightarrow> 'm JIT" where
  "JIT_new uc = \<lparr>useCache = uc, engineCache = Map.empty, engines_created = 0\<rparr>"

record 'm run_call =
  c_module :: 'm
  c_fname :: string
  c_inp :: "intptr_t list"
  c_osz :: nat

fun runs ::
  "('m, 'f) jit_ext \<Rightarrow> 'm JIT \<Rightarrow> 'm run_call list
     \<Rightarrow> (error + intptr_t list) list \<times> 'm JIT" where
  "runs ext j [] = ([], j)"
| "runs ext j (c # cs) =
     (case run ext j (c_module c) (c_fname c) (c_inp c) (c_osz c) of
        (r, j') \<Rightarrow> (case runs ext j' cs of (rs, j'') \<Rightarrow> (r # rs, j'')))"

text \<open>
  Notions for the statements about the cache: the text of a module at the moment \<open>run\<close>
  hashes it (after the tracing declarations are added, before the pipeline lowers it),
  the key under which \<open>run\<close> looks the module up, what \<open>run\<close> does once it has an engine,
  and the two results of \<open>run\<close> that mean no engine could be constructed.
\<close>

definition hashed_text :: "('m, 'f) jit_ext \<Rightarrow> 'm \<Rightarrow> string" where
  "hashed_text ext module =
     print_module ext (if has_itac ext then add_itac_decls ext module else module)"

definition cache_key :: "('m, 'f) jit_ext \<Rightarrow> 'm \<Rightarrow> 160 word" where
  "cache_key ext module = sha1 ext (hashed_text ext module)"

definition invoke_packed ::
  "('m, 'f) jit_ext \<Rightarrow> 'm ExecutionEngine \<Rightarrow> string \<Rightarrow> intptr_t list \<Rightarrow> nat
     \<Rightarrow> error + intptr_t list" where
  "invoke_packed ext eng fname inp osz =
     (case lookupPacked ext eng (''_mlir_ciface_'' @ fname) of
        None \<Rightarrow> Inl LookupFailure
      | Some jittedFuncPtr \<Rightarrow>
          Inr (map (invoke ext jittedFuncPtr (pack_args osz inp) inp) [0..<osz]))"

definition engine_failed :: "error + intptr_t list \<Rightarrow> bool" where
  "engine_failed r = (r = Inl PassFailure \<or> r = Inl CompileFailure)"

text \<open>
  The invariant of the engine state while the cache is in use: the cache holds one
  engine for each engine constructed, every cached engine was constructed earlier, and
  no two keys hold the same engine.
\<close>

definition cache_inv :: "'m JIT \<Rightarrow> bool" where
  "cache_inv j =
     (useCache j \<and> finite (dom (engineCache j))
      \<and> card (dom (engineCache j)) = engines_created j
      \<and> (\<forall>k e. engineCache j k = Some e \<longrightarrow> ee_id e < engines_created j)
      \<and> (\<forall>k k' e e'. engineCache j k = Some e \<and> engineCache j k' = Some e'
             \<and> ee_id e = ee_id e' \<longrightarrow> k = k'))"

section \<open>Batches and derived notions\<close>

text \<open>
  The operations a batch performs on the dependency manager, and their execution in
  sequence from a fresh manager.  The first error ends the batch, as the exception does.
\<close>

datatype ('c, 'r) dm_op =
  GetDependent id_type
  | AddVal id_type mlir_value 'c
  | AddReady id_type 'r
  | Drop id_type
  | StoreInputs
  | HandleResult bool

fun apply_op :: "('c, 'r) dm_op \<Rightarrow> ('c, 'r) DepManager \<Rightarrow> error + ('c, 'r) DepManager" where
  "apply_op (GetDependent guid) s =
     (case getDependent guid s of Inl e \<Rightarrow> Inl e | Inr (v, s') \<Rightarrow> Inr s')"
| "apply_op (AddVal guid val cb) s = addVal guid val cb s"
| "apply_op (AddReady guid cb) s = Inr (addReady guid cb s)"
| "apply_op (Drop guid) s = Inr (drop_guid guid s)"
| "apply_op StoreInputs s = Inr (snd (store_inputs s))"
| "apply_op (HandleResult itac) s =
     (case handleResult itac s of Inl e \<Rightarrow> Inl e | Inr (osz, s') \<Rightarrow> Inr s')"

fun apply_ops ::
  "('c, 'r) dm_op list \<Rightarrow> ('c, 'r) DepManager \<Rightarrow> error + ('c, 'r) DepManager" where
  "apply_ops [] s = Inr s"
| "apply_ops (x # xs) s = (case apply_op x s of Inl e \<Rightarrow> Inl e | Inr s' \<Rightarrow> apply_ops xs s')"

text \<open>Rank and distribution flag of a value, as \<open>handleResult\<close> reads them off its type.\<close>

definition value_rank :: "mlir_value \<Rightarrow> nat" where
  "value_rank v = (case getType v of Some (PTensorType shp etyp envs) \<Rightarrow> length shp | _ \<Rightarrow> 0)"

definition value_dist :: "mlir_value \<Rightarrow> bool" where
  "value_dist v = (case getType v of Some typ \<Rightarrow> isDist typ | None \<Rightarrow> False)"

definition is_ptensor_value :: "mlir_value \<Rightarrow> bool" where
  "is_ptensor_value v = (case getType v of Some (PTensorType shp etyp envs) \<Rightarrow> True | _ \<Rightarrow> False)"

definition result_words :: "mlir_value \<Rightarrow> nat" where
  "result_words v = ptensor_sz (value_rank v) (value_dist v)"

text \<open>
  The descriptor layout in the words of the specification: the memref of rank \<open>R\<close> that
  starts at position \<open>p\<close> of a buffer is \<open>allocated, aligned, offset\<close>, then \<open>R\<close> sizes,
  then \<open>R\<close> strides.
\<close>

definition memref_at :: "nat \<Rightarrow> intptr_t list \<Rightarrow> nat \<Rightarrow> memref" where
  "memref_at R buf p =
     \<lparr>allocated = buf ! p, aligned = buf ! (p + 1), offset = buf ! (p + 2),
      sizes = map (\<lambda>i. buf ! (p + 3 + i)) [0..<R],
      strides = map (\<lambda>i. buf ! (p + 3 + R + i)) [0..<R]\<rparr>"

text \<open>
  The delivery of one result in the words of the specification, decoded from the words
  of a buffer that start at position \<open>p\<close>: for a distributed array of rank above 0 the
  left halo, the local data and the right halo one after the other, then the memref of
  the local offsets; otherwise the single memref of the data.
\<close>

definition decode_result ::
  "id_type \<Rightarrow> 'c \<Rightarrow> nat \<Rightarrow> bool \<Rightarrow> intptr_t list \<Rightarrow> nat \<Rightarrow> 'c delivery" where
  "decode_result guid cb R d buf p =
     (if d \<and> 0 < R then
        \<lparr>dl_guid = guid, dl_cb = cb, dl_rank = R,
         dl_lhsHalo = Some (memref_at R buf p),
         dl_lData = memref_at R buf (p + memref_sz R),
         dl_rhsHalo = Some (memref_at R buf (p + 2 * memref_sz R)),
         dl_lo = Some (buf ! (p + 3 * memref_sz R),
                       buf ! (p + 3 * memref_sz R + 1) + 8 * buf ! (p + 3 * memref_sz R + 2))\<rparr>
      else
        \<lparr>dl_guid = guid, dl_cb = cb, dl_rank = R,
         dl_lhsHalo = None, dl_lData = memref_at R buf p, dl_rhsHalo = None, dl_lo = None\<rparr>)"

text \<open>
  The service node of \<open>Service.cpp\<close>: \<open>generate_mlir\<close> of a \<open>DROP\<close> drops the id of its
  operand and asks for no eager execution; a \<open>RUN\<close> asks for it.
\<close>

datatype service_op = DROP | RUN | SERVICE_LAST

definition DeferredService_generate_mlir ::
  "service_op \<Rightarrow> id_type \<Rightarrow> ('c, 'r) DepManager \<Rightarrow> error + (bool \<times> ('c, 'r) DepManager)" where
  "DeferredService_generate_mlir op a dm =
     (case op of
        DROP \<Rightarrow> Inr (False, drop_guid a dm)
      | RUN \<Rightarrow> Inr (True, dm)
      | SERVICE_LAST \<Rightarrow> Inl UnknownServiceOp)"


text \<open>A value whose type (if it has one) is free of signed and unsigned integers, and an
  operation of a batch that registers only such a value.\<close>

definition value_signless :: "mlir_value \<Rightarrow> bool" where
  "value_signless v = (case getType v of None \<Rightarrow> True | Some t \<Rightarrow> isSignless t)"


section \<open>Example data\<close>

text \<open>
  A registered array \<open>x\<close> of rank 2, element type \<open>FLOAT32\<close>, team 0 (its descriptor has
  \<open>memref_sz 2 = 7\<close> words), an array whose tag is outside the supported set, a local
  result value of rank 1 and a distributed result value of rank 1.
\<close>

definition example_x :: future where
  "example_x =
     \<lparr>f_device = [], f_team = 0,
      f_impl = \<lparr>t_dtype = FLOAT32, t_ndims = 2, t_shape = [3, 4], t_lh_shape = None,
                t_local_shape = [3, 4], t_rh_shape = None, t_local_offsets = [0, 0],
                t_args = [4096, 4096, 0, 3, 4, 4, 1]\<rparr>\<rparr>"

definition example_bad :: future where
  "example_bad =
     \<lparr>f_device = [], f_team = 0,
      f_impl = \<lparr>t_dtype = DTYPE_LAST, t_ndims = 0, t_shape = [], t_lh_shape = None,
                t_local_shape = [], t_rh_shape = None, t_local_offsets = [],
                t_args = [4096, 4096, 0]\<rparr>\<rparr>"

definition example_x_type :: mlir_type where
  "example_x_type = PTensorType [3, 4] F32Type []"

definition example_local :: mlir_value where
  "example_local = OpResult 0 (PTensorType [10] (IntegerType 64 Signless) [])"

definition example_dist :: mlir_value where
  "example_dist = OpResult 1 (PTensorType [8] F64Type [DistEnvAttr 1 [0] [[0], [4], [0]]])"

text \<open>
  The manager of a batch that imported \<open>x\<close> under id 7, created the local value under
  id 8 and the distributed value under id 9, registered a ready callback for id 8, and
  has stored its inputs.  Callbacks are numbered.
\<close>

definition example_state :: "(nat, nat) DepManager" where
  "example_state =
     \<lparr>ivm = [(8, example_local), (9, example_dist)],
      args = [(7, example_x)],
      icm = [8 \<mapsto> 0, 9 \<mapsto> 1],
      icr = [(8, [0])],
      irm = Map.empty,
      func_args = [example_x_type], func_results = [], body = [],
      registry = [7 \<mapsto> example_x, 8 \<mapsto> example_x]\<rparr>"

text \<open>
  A compiler framework for the examples: a module is its own text, lowering and engine
  construction succeed, the entry point of \<open>ddpt_jit\<close> exists and writes the index of
  every word into the output vector.  The digest is a parameter of the example.
\<close>

definition example_ext :: "(string \<Rightarrow> 160 word) \<Rightarrow> (string, nat) jit_ext" where
  "example_ext h =
     \<lparr>print_module = (\<lambda>m. m), sha1 = h, has_itac = False, add_itac_decls = (\<lambda>m. m),
      pm_run = (\<lambda>m. Some (''lowered: '' @ m)), ee_create = (\<lambda>m. True),
      lookupPacked = (\<lambda>eng name. if name = ''_mlir_ciface_ddpt_jit'' then Some 0 else None),
      invoke = (\<lambda>f packed inp i. of_nat i)\<rparr>"

text \<open>
  A digest for the examples that tells texts of different length apart, four calls of
  \<open>run\<close> (the first two with the same module, the last for an entry point that does
  not exist), and the engine state a fresh process is in after them.
\<close>

definition example_digest :: "string \<Rightarrow> 160 word" where
  "example_digest t = of_nat (length t)"

definition example_calls :: "string run_call list" where
  "example_calls =
     [\<lparr>c_module = ''a'', c_fname = ''ddpt_jit'', c_inp = [], c_osz = 2\<rparr>,
      \<lparr>c_module = ''a'', c_fname = ''ddpt_jit'', c_inp = [], c_osz = 2\<rparr>,
      \<lparr>c_module = ''cc'', c_fname = ''ddpt_jit'', c_inp = [], c_osz = 2\<rparr>,
      \<lparr>c_module = ''ddd'', c_fname = ''other'', c_inp = [], c_osz = 2\<rparr>]"

definition example_cache :: "string JIT" where
  "example_cache =
     \<lparr>useCache = True,
      engineCache = [1 \<mapsto> \<lparr>ee_id = 0, ee_module = ''lowered: a''\<rparr>,
                     2 \<mapsto> \<lparr>ee_id = 1, ee_module = ''lowered: cc''\<rparr>,
                     3 \<mapsto> \<lparr>ee_id = 2, ee_module = ''lowered: ddd''\<rparr>],
      engines_created = 3\<rparr>"




definition example_finalised :: "(nat, nat) DepManager" where
  "example_finalised =
     example_state\<lparr>ivm := [(8, NullValue), (9, NullValue)],
                   irm := [8 \<mapsto> (1, False), 9 \<mapsto> (1, True)]\<rparr>"

section \<open>Properties of the creation front-ends\<close>

lemma d_team_full: "d_team (DeferredFull_ctor shape v dtype t) = t"
  by (simp add: DeferredFull_ctor_def Deferred_ctor_def Deferred.extend_def)

lemma d_team_arange: "d_team (DeferredArange_ctor a b c dtype t) = t"
  by (simp add: DeferredArange_ctor_def Deferred_ctor_def Deferred.extend_def)

lemma d_team_linspace: "d_team (DeferredLinspace_ctor a b n e dtype t) = t"
  by (simp add: DeferredLinspace_ctor_def Deferred_ctor_def Deferred.extend_def)

text \<open>
  C10.  The team stored in the node of \<open>full\<close>, \<open>arange\<close> and \<open>linspace\<close> is
  \<open>mkTeam team\<close>, not the caller's team: 1 when the requested team is non-zero and the
  transceiver has more than one rank, 0 otherwise.  On a single-rank run the stored
  team is therefore 0 (a non-distributed array) whatever team was requested.
\<close>

theorem creators_store_mkTeam:
  "d_team (Creator_full nranks mk_scalar shape val dtype team) = mkTeam nranks team
   \<and> d_team (Creator_arange nranks start end' step dtype team) = mkTeam nranks team
   \<and> d_team (Creator_linspace nranks lstart lend num endpoint dtype team) = mkTeam nranks team
   \<and> mkTeam nranks team = (if team \<noteq> 0 \<and> nranks > 1 then 1 else 0)
   \<and> (nranks \<le> 1 \<longrightarrow>
        d_team (Creator_full nranks mk_scalar shape val dtype team) = 0
        \<and> d_team (Creator_arange nranks start end' step dtype team) = 0
        \<and> d_team (Creator_linspace nranks lstart lend num endpoint dtype team) = 0)"
  by (simp add: Creator_full_def Creator_arange_def Creator_linspace_def
      d_team_full d_team_arange d_team_linspace mkTeam_def)

theorem creators_store_mkTeam_witness:
  "d_team (Creator_full 1 (\<lambda>p d. p) [10] (1::int) INT64 5) = 0
   \<and> d_team (Creator_arange 1 0 10 1 INT64 5) = 0
   \<and> d_team (Creator_linspace 1 (0::int) 1 10 True INT64 5) = 0
   \<and> d_team (Creator_full 4 (\<lambda>p d. p) [10] (1::int) INT64 5) = 1
   \<and> d_team (Creator_arange 4 0 10 1 INT64 0) = 0"
  using creators_store_mkTeam [of 1 "\<lambda>p d. p" "[10]" "1::int" INT64 5 0 10 1 "0::int" 1 10 True]
    creators_store_mkTeam [of 4 "\<lambda>p d. p" "[10]" "1::int" INT64 5 0 10 1 "0::int" 1 10 True]
    creators_store_mkTeam [of 4 "\<lambda>p d. p" "[10]" "1::int" INT64 0 0 10 1 "0::int" 1 10 True]
  by (simp add: mkTeam_def)

section \<open>Element types\<close>



lemma getTType_total:
  "dtype \<noteq> DTYPE_LAST \<Longrightarrow> \<exists>typ. getTType dtype g lh own rh dev team lo = Inr typ"
  by (cases dtype) (auto simp: getTType_def Let_def)


lemma arg_type_total: "t_dtype (f_impl fut) \<noteq> DTYPE_LAST \<Longrightarrow> \<exists>typ. arg_type fut = Inr typ"
  unfolding arg_type_def Let_def by (rule getTType_total)

section \<open>The ordered map\<close>

lemma om_assign_new: "k \<notin> fst ` set m \<Longrightarrow> om_assign k v m = m @ [(k, v)]"
  by (induction m) auto

lemma keys_om_assign: "fst ` set (om_assign k v m) = insert k (fst ` set m)"
  by (induction m) auto

lemma distinct_om_assign: "distinct (map fst m) \<Longrightarrow> distinct (map fst (om_assign k v m))"
  by (induction m) (auto simp: keys_om_assign)

lemma map_of_om_erase: "map_of (om_erase k m) = (map_of m)(k := None)"
  by (induction m) (auto simp: om_erase_def fun_eq_iff)

lemma distinct_om_erase: "distinct (map fst m) \<Longrightarrow> distinct (map fst (om_erase k m))"
  by (simp add: om_erase_def distinct_map_filter)

lemma om_erase_absent: "k \<notin> fst ` set m \<Longrightarrow> om_erase k m = m"
  by (induction m) (auto simp: om_erase_def)

lemma length_insert_at: "length (insert_at idx x xs) = Suc (length xs)"
  by (simp add: insert_at_def)

section \<open>The loops of the dependency manager in closed form\<close>

lemma store_inputs_loop_eq:
  "store_inputs_loop as res s =
     (res @ concat (map (\<lambda>a. t_args (f_impl (snd a))) as),
      s\<lparr>ivm := filter (\<lambda>p. fst p \<notin> fst ` set as) (ivm s),
        icm := icm s |` (- fst ` set as)\<rparr>)"
proof (induction as arbitrary: res s)
  case Nil
  then show ?case by simp
next
  case (Cons a as)
  have f: "filter (\<lambda>p. fst p \<notin> fst ` set as) (om_erase (fst a) (ivm s))
           = filter (\<lambda>p. fst p \<notin> fst ` set (a # as)) (ivm s)"
    by (auto simp: om_erase_def intro: filter_cong)
  have g: "((icm s)(fst a := None)) |` (- fst ` set as) = icm s |` (- fst ` set (a # as))"
    by (auto simp: fun_eq_iff restrict_map_def)
  have "store_inputs_loop (a # as) res s =
     ((res @ t_args (f_impl (snd a))) @ concat (map (\<lambda>a. t_args (f_impl (snd a))) as),
      s\<lparr>ivm := filter (\<lambda>p. fst p \<notin> fst ` set as) (om_erase (fst a) (ivm s)),
        icm := ((icm s)(fst a := None)) |` (- fst ` set as)\<rparr>)"
    unfolding store_inputs_loop.simps Cons.IH by simp
  then show ?case
    unfolding f g by simp
qed

lemma handleResult_loop_eq:
  assumes "list_all (\<lambda>p. is_ptensor_value (snd p)) vs"
    and "idx + length vs \<le> length ret_values"
    and "idx \<le> length results"
  shows "\<exists>types. map Some types = map (\<lambda>p. getType (snd p)) vs \<and>
         handleResult_loop vs idx sz ret_values results rm =
         Inr (map (\<lambda>p. (fst p, NullValue)) vs,
              sz + sum_list (map (\<lambda>p. result_words (snd p)) vs),
              take idx ret_values @ map snd vs @ drop (idx + length vs) ret_values,
              take idx results @ types @ drop idx results,
              rm ++ map_of (rev (map (\<lambda>p. (fst p, value_rank (snd p), value_dist (snd p))) vs)))"
  using assms
proof (induction vs arbitrary: idx sz ret_values results rm)
  case Nil
  then show ?case by simp
next
  case (Cons v vs)
  from Cons.prems(1) obtain shp etyp envs where ty: "getType (snd v) = Some (PTensorType shp etyp envs)"
    by (auto simp: is_ptensor_value_def split: option.splits mlir_type.splits)
  let ?pty = "PTensorType shp etyp envs"
  let ?rv = "ret_values[idx := snd v]"
  let ?res = "insert_at idx ?pty results"
  have p1: "list_all (\<lambda>p. is_ptensor_value (snd p)) vs" using Cons.prems(1) by simp
  have p2: "Suc idx + length vs \<le> length ?rv" using Cons.prems(2) by simp
  have p3: "Suc idx \<le> length ?res" using Cons.prems(3) by (simp add: insert_at_def)
  from Cons.IH [OF p1 p2 p3, of "sz + ptensor_sz (length shp) (isDist ?pty)"
      "rm(fst v \<mapsto> (length shp, isDist ?pty))"]
  obtain types where t: "map Some types = map (\<lambda>p. getType (snd p)) vs"
    and h: "handleResult_loop vs (Suc idx) (sz + ptensor_sz (length shp) (isDist ?pty)) ?rv ?res
              (rm(fst v \<mapsto> (length shp, isDist ?pty))) =
            Inr (map (\<lambda>p. (fst p, NullValue)) vs,
              sz + ptensor_sz (length shp) (isDist ?pty) + sum_list (map (\<lambda>p. result_words (snd p)) vs),
              take (Suc idx) ?rv @ map snd vs @ drop (Suc idx + length vs) ?rv,
              take (Suc idx) ?res @ types @ drop (Suc idx) ?res,
              rm(fst v \<mapsto> (length shp, isDist ?pty)) ++
                map_of (rev (map (\<lambda>p. (fst p, value_rank (snd p), value_dist (snd p))) vs)))"
    by blast
  have c: "rm(fst v \<mapsto> (length shp, isDist ?pty)) ++
             map_of (rev (map (\<lambda>p. (fst p, value_rank (snd p), value_dist (snd p))) vs))
           = rm ++ map_of (rev (map (\<lambda>p. (fst p, value_rank (snd p), value_dist (snd p))) (v # vs)))"
    by (auto simp: fun_eq_iff map_add_def value_rank_def value_dist_def ty split: option.splits)
  have rw: "result_words (snd v) = ptensor_sz (length shp) (isDist ?pty)"
    "value_rank (snd v) = length shp" "value_dist (snd v) = isDist ?pty"
    by (simp_all add: result_words_def value_rank_def value_dist_def ty)
  have idx_lt: "idx < length ret_values" using Cons.prems(2) by simp
  have a1: "take (Suc idx) ?rv = take idx ret_values @ [snd v]"
    using idx_lt by (simp add: take_Suc_conv_app_nth)
  have a2: "drop (Suc idx + length vs) ?rv = drop (idx + length (v # vs)) ret_values"
    by simp
  have b1: "take (Suc idx) ?res = take idx results @ [?pty]"
    using Cons.prems(3) by (simp add: insert_at_def)
  have b2: "drop (Suc idx) ?res = drop idx results"
    using Cons.prems(3) by (simp add: insert_at_def)
  have step: "handleResult_loop (v # vs) idx sz ret_values results rm =
      (case handleResult_loop vs (Suc idx) (sz + ptensor_sz (length shp) (isDist ?pty)) ?rv ?res
              (rm(fst v \<mapsto> (length shp, isDist ?pty))) of
         Inl e \<Rightarrow> Inl e
       | Inr (vs', r) \<Rightarrow> Inr ((fst v, NullValue) # vs', r))"
    by (simp add: ty Let_def)
  show ?case
    apply (rule exI [of _ "?pty # types"])
    unfolding step h a1 a2 b1 b2 c
    using t by (simp add: ty rw)
qed

section \<open>The operations of the dependency manager in closed form\<close>

lemma getDependent_hit:
  "map_of (ivm s) guid = Some d \<Longrightarrow> getDependent guid s = Inr (d, s)"
  by (simp add: getDependent_def)

lemma getDependent_unknown:
  "map_of (ivm s) guid = None \<Longrightarrow> registry s guid = None \<Longrightarrow>
     getDependent guid s = Inl (UnknownGuid guid)"
  by (simp add: getDependent_def Registry_get_def)

lemma getDependent_bad_dtype:
  "map_of (ivm s) guid = None \<Longrightarrow> registry s guid = Some fut \<Longrightarrow> arg_type fut = Inl e \<Longrightarrow>
     getDependent guid s = Inl e"
  by (simp add: getDependent_def Registry_get_def)

lemma getDependent_miss:
  "map_of (ivm s) guid = None \<Longrightarrow> registry s guid = Some fut \<Longrightarrow> arg_type fut = Inr typ \<Longrightarrow>
     getDependent guid s =
       Inr (BlockArgument (length (args s)) typ,
            s\<lparr>func_args := insert_at (length (args s)) typ (func_args s),
              args := args s @ [(guid, fut)],
              ivm := ivm s @ [(guid, BlockArgument (length (args s)) typ)]\<rparr>)"
proof -
  assume a: "map_of (ivm s) guid = None" "registry s guid = Some fut" "arg_type fut = Inr typ"
  from a(1) have k: "guid \<notin> fst ` set (ivm s)" by (simp add: map_of_eq_None_iff)
  show ?thesis
    by (simp add: getDependent_def Registry_get_def Let_def om_assign_new [OF k] a)
qed

lemma getDependent_cases:
  assumes "getDependent guid s = Inr (v, s')"
  obtains (hit) "map_of (ivm s) guid = Some v" "s' = s"
  | (miss) fut aty where "map_of (ivm s) guid = None" "registry s guid = Some fut"
      "arg_type fut = Inr aty" "v = BlockArgument (length (args s)) aty"
      "s' = s\<lparr>func_args := insert_at (length (args s)) aty (func_args s),
              args := args s @ [(guid, fut)],
              ivm := ivm s @ [(guid, BlockArgument (length (args s)) aty)]\<rparr>"
proof (cases "map_of (ivm s) guid")
  case None
  show ?thesis
  proof (cases "registry s guid")
    case N: None
    with None assms show ?thesis by (simp add: getDependent_unknown)
  next
    case (Some fut)
    show ?thesis
    proof (cases "arg_type fut")
      case (Inl e)
      with None Some assms show ?thesis by (simp add: getDependent_bad_dtype)
    next
      case (Inr aty)
      from assms have "getDependent guid s = Inr (v, s')" .
      then have "v = BlockArgument (length (args s)) aty"
        and "s' = s\<lparr>func_args := insert_at (length (args s)) aty (func_args s),
              args := args s @ [(guid, fut)],
              ivm := ivm s @ [(guid, BlockArgument (length (args s)) aty)]\<rparr>"
        unfolding getDependent_miss [OF None Some Inr] by auto
      then show ?thesis by (rule miss [OF None Some Inr])
    qed
  qed
next
  case (Some d)
  from assms have "d = v" and "s' = s"
    unfolding getDependent_hit [OF Some] by simp_all
  with Some show ?thesis by (intro hit) simp_all
qed

lemma store_inputs_eq:
  "store_inputs s =
     (concat (map (\<lambda>a. t_args (f_impl (snd a))) (args s)),
      s\<lparr>ivm := filter (\<lambda>p. fst p \<notin> fst ` set (args s)) (ivm s),
        icm := icm s |` (- fst ` set (args s))\<rparr>)"
  by (simp add: store_inputs_def store_inputs_loop_eq)

lemma handleResult_loop_live:
  "handleResult_loop vs idx sz ret_values results rm = Inr r \<Longrightarrow>
     list_all (\<lambda>p. is_ptensor_value (snd p)) vs"
proof (induction vs arbitrary: idx sz ret_values results rm r)
  case Nil
  then show ?case by simp
next
  case (Cons v vs)
  from Cons.prems obtain shp etyp envs where ty: "getType (snd v) = Some (PTensorType shp etyp envs)"
    by (auto split: option.splits mlir_type.splits)
  from Cons.prems obtain r' where
    "handleResult_loop vs (Suc idx) (sz + ptensor_sz (length shp) (isDist (PTensorType shp etyp envs)))
        (ret_values[idx := snd v]) (insert_at idx (PTensorType shp etyp envs) results)
        (rm(fst v \<mapsto> (length shp, isDist (PTensorType shp etyp envs)))) = Inr r'"
    by (auto simp: ty Let_def split: sum.splits)
  from Cons.IH [OF this] show ?case
    by (simp add: is_ptensor_value_def ty)
qed

lemma handleResult_eq:
  assumes "list_all (\<lambda>p. is_ptensor_value (snd p)) (ivm s)"
  shows "\<exists>types. map Some types = map (\<lambda>p. getType (snd p)) (ivm s) \<and>
     handleResult itac s =
       Inr (2 * sum_list (map (\<lambda>p. result_words (snd p)) (ivm s)),
            s\<lparr>ivm := map (\<lambda>p. (fst p, NullValue)) (ivm s),
              func_results := types @ func_results s,
              irm := irm s ++
                map_of (rev (map (\<lambda>p. (fst p, value_rank (snd p), value_dist (snd p))) (ivm s))),
              body := (if itac
                       then [CallOp ''VT_begin''] @ body s @ [ConstantOp, CallOp ''VT_end'']
                       else body s) @ [ReturnOp (map snd (ivm s))]\<rparr>)"
proof -
  from handleResult_loop_eq [OF assms, of 0 "replicate (length (ivm s)) NullValue"
      "func_results s" 0 "irm s"]
  obtain types where t: "map Some types = map (\<lambda>p. getType (snd p)) (ivm s)"
    and h: "handleResult_loop (ivm s) 0 0 (replicate (length (ivm s)) NullValue)
              (func_results s) (irm s) =
            Inr (map (\<lambda>p. (fst p, NullValue)) (ivm s),
                 0 + sum_list (map (\<lambda>p. result_words (snd p)) (ivm s)),
                 take 0 (replicate (length (ivm s)) NullValue) @ map snd (ivm s) @
                   drop (0 + length (ivm s)) (replicate (length (ivm s)) NullValue),
                 take 0 (func_results s) @ types @ drop 0 (func_results s),
                 irm s ++
                   map_of (rev (map (\<lambda>p. (fst p, value_rank (snd p), value_dist (snd p))) (ivm s))))"
    by auto
  show ?thesis
    apply (rule exI [of _ types])
    unfolding handleResult_def h
    using t by simp
qed

lemma handleResult_live:
  "handleResult itac s = Inr r \<Longrightarrow> list_all (\<lambda>p. is_ptensor_value (snd p)) (ivm s)"
  by (auto simp: handleResult_def split: sum.splits dest: handleResult_loop_live)

lemma irm_after_handleResult:
  assumes "distinct (map fst vs)"
  shows "(rm ++ map_of (rev (map (\<lambda>p. (fst p, value_rank (snd p), value_dist (snd p))) vs))) g =
         (case map_of vs g of None \<Rightarrow> rm g | Some v \<Rightarrow> Some (value_rank v, value_dist v))"
  using assms
proof (induction vs arbitrary: rm)
  case Nil
  then show ?case by simp
next
  case (Cons x xs)
  let ?f = "\<lambda>p. (fst p, value_rank (snd p), value_dist (snd p))"
  let ?rm1 = "rm(fst x \<mapsto> (value_rank (snd x), value_dist (snd x)))"
  have e: "rm ++ map_of (rev (map ?f (x # xs))) = ?rm1 ++ map_of (rev (map ?f xs))"
    by (auto simp: fun_eq_iff map_add_def split: option.splits)
  from Cons.prems have d: "distinct (map fst xs)" and nx: "fst x \<notin> fst ` set xs"
    by auto
  from nx have n: "map_of xs (fst x) = None" by (simp add: map_of_eq_None_iff)
  have ih: "(?rm1 ++ map_of (rev (map ?f xs))) g =
            (case map_of xs g of None \<Rightarrow> ?rm1 g | Some v \<Rightarrow> Some (value_rank v, value_dist v))"
    by (rule Cons.IH [OF d])
  show ?case
  proof (cases "g = fst x")
    case True
    then show ?thesis unfolding e ih using n by (cases x) simp
  next
    case False
    then show ?thesis unfolding e ih by (cases x) (simp split: option.splits)
  qed
qed

section \<open>Invariants of a batch\<close>

text \<open>
  Two facts hold of every state a batch can reach: the ids of \<open>ivm\<close> are distinct, and
  the declared argument types of the function are, position by position, the types
  synthesised for the futures of \<open>args\<close>.
\<close>

lemma apply_op_distinct:
  assumes "apply_op x s = Inr s'" and "distinct (map fst (ivm s))"
  shows "distinct (map fst (ivm s'))"
proof (cases x)
  case (GetDependent guid)
  with assms(1) obtain v where g: "getDependent guid s = Inr (v, s')"
    by (auto split: sum.splits)
  then show ?thesis
    using assms(2) by (cases rule: getDependent_cases) (auto simp: map_of_eq_None_iff)
next
  case (AddVal guid val cb)
  with assms show ?thesis
    by (auto simp: addVal_def distinct_om_assign split: if_splits)
next
  case (AddReady guid cb)
  with assms show ?thesis by (auto simp: addReady_def)
next
  case (Drop guid)
  with assms show ?thesis by (auto simp: drop_guid_def distinct_om_erase)
next
  case StoreInputs
  with assms show ?thesis by (auto simp: store_inputs_eq distinct_map_filter)
next
  case (HandleResult itac)
  with assms(1) obtain osz where h: "handleResult itac s = Inr (osz, s')"
    by (auto split: sum.splits)
  from handleResult_eq [OF handleResult_live [OF h], of itac] h assms(2)
  show ?thesis by (auto simp: comp_def)
qed

lemma apply_op_args_in_order:
  assumes "apply_op x s = Inr s'"
    and "map Inr (func_args s) = map (\<lambda>a. arg_type (snd a)) (args s)"
  shows "map Inr (func_args s') = map (\<lambda>a. arg_type (snd a)) (args s')"
proof (cases x)
  case (GetDependent guid)
  with assms(1) obtain v where g: "getDependent guid s = Inr (v, s')"
    by (auto split: sum.splits)
  from assms(2) have l: "length (func_args s) = length (args s)"
    by (metis length_map)
  from g show ?thesis
    using assms(2) l by (cases rule: getDependent_cases) (auto simp: insert_at_def)
next
  case (AddVal guid val cb)
  with assms show ?thesis by (auto simp: addVal_def split: if_splits)
next
  case (AddReady guid cb)
  with assms show ?thesis by (auto simp: addReady_def)
next
  case (Drop guid)
  with assms show ?thesis by (auto simp: drop_guid_def)
next
  case StoreInputs
  with assms show ?thesis by (auto simp: store_inputs_eq)
next
  case (HandleResult itac)
  with assms(1) obtain osz where h: "handleResult itac s = Inr (osz, s')"
    by (auto split: sum.splits)
  from handleResult_eq [OF handleResult_live [OF h], of itac] h assms(2)
  show ?thesis by auto
qed

lemma apply_ops_invariant:
  assumes "apply_ops ops s = Inr s'"
    and "distinct (map fst (ivm s))"
    and "map Inr (func_args s) = map (\<lambda>a. arg_type (snd a)) (args s)"
  shows "distinct (map fst (ivm s')) \<and>
         map Inr (func_args s') = map (\<lambda>a. arg_type (snd a)) (args s')"
  using assms
proof (induction ops arbitrary: s)
  case Nil
  then show ?case by simp
next
  case (Cons x xs)
  from Cons.prems(1) obtain s1 where x: "apply_op x s = Inr s1" and xs: "apply_ops xs s1 = Inr s'"
    by (auto split: sum.splits)
  show ?case
    by (rule Cons.IH [OF xs apply_op_distinct [OF x Cons.prems(2)]
          apply_op_args_in_order [OF x Cons.prems(3)]])
qed

lemma batch_invariant:
  assumes "apply_ops ops (DepManager_new reg) = Inr s"
  shows "distinct (map fst (ivm s)) \<and>
         map Inr (func_args s) = map (\<lambda>a. arg_type (snd a)) (args s)"
  by (rule apply_ops_invariant [OF assms]) (simp_all add: DepManager_new_def)






section \<open>Evaluation of the example data\<close>

lemma arg_type_example_x: "arg_type example_x = Inr example_x_type"
  by (simp add: arg_type_def example_x_def example_x_type_def getTType_def Let_def
      c_array_def upt_rec)

lemma arg_type_example_bad: "arg_type example_bad = Inl UnknownDtype"
  by (simp add: arg_type_def example_bad_def getTType_def Let_def)

lemma example_values:
  "getType example_local = Some (PTensorType [10] (IntegerType 64 Signless) [])"
  "getType example_dist = Some (PTensorType [8] F64Type [DistEnvAttr 1 [0] [[0], [4], [0]]])"
  "is_ptensor_value example_local" "is_ptensor_value example_dist"
  "value_rank example_local = 1" "value_rank example_dist = 1"
  "\<not> value_dist example_local" "value_dist example_dist"
  "value_signless example_local" "value_signless example_dist"
  by (simp_all add: example_local_def example_dist_def is_ptensor_value_def value_rank_def
      value_dist_def value_signless_def)

lemma example_batch:
  "apply_ops [GetDependent 7, AddVal 8 example_local c1, AddVal 9 example_dist c2]
     (DepManager_new [7 \<mapsto> example_x]) =
   Inr \<lparr>ivm = [(7, BlockArgument 0 example_x_type), (8, example_local), (9, example_dist)],
        args = [(7, example_x)],
        icm = [8 \<mapsto> c1, 9 \<mapsto> c2],
        icr = [], irm = Map.empty,
        func_args = [example_x_type], func_results = [], body = [],
        registry = [7 \<mapsto> example_x]\<rparr>"
  by (simp add: getDependent_def Registry_get_def arg_type_example_x DepManager_new_def
      insert_at_def addVal_def Let_def)

section \<open>Results of a batch\<close>

text \<open>
  C3.  For a manager whose entries of \<open>ivm\<close> all carry a live array value,
  \<open>handleResult\<close> succeeds and returns twice the sum of \<open>ptensor_sz rank is_distributed\<close>
  over the entries.  The return operation it emits last holds the values in the order
  of \<open>ivm\<close>; the type of the i-th value is the i-th result type of the signature (the
  results declared before follow); \<open>irm\<close> holds rank and distribution flag of every
  entry; arguments and \<open>args\<close> are untouched.
\<close>

theorem handleResult_returns_twice_total:
  assumes "list_all (\<lambda>p. is_ptensor_value (snd p)) (ivm s)"
    and "distinct (map fst (ivm s))"
  shows "\<exists>s'. handleResult itac s =
            Inr (2 * sum_list (map (\<lambda>p. ptensor_sz (value_rank (snd p)) (value_dist (snd p))) (ivm s)),
                 s')
          \<and> last (body s') = ReturnOp (map snd (ivm s))
          \<and> map Some (take (length (ivm s)) (func_results s')) = map (\<lambda>p. getType (snd p)) (ivm s)
          \<and> drop (length (ivm s)) (func_results s') = func_results s
          \<and> (\<forall>p\<in>set (ivm s). irm s' (fst p) = Some (value_rank (snd p), value_dist (snd p)))
          \<and> map fst (ivm s') = map fst (ivm s)
          \<and> func_args s' = func_args s \<and> args s' = args s"
proof -
  from handleResult_eq [OF assms(1), of itac]
  obtain types s' where t: "map Some types = map (\<lambda>p. getType (snd p)) (ivm s)"
    and h: "handleResult itac s =
       Inr (2 * sum_list (map (\<lambda>p. result_words (snd p)) (ivm s)), s')"
    and s': "s' = s\<lparr>ivm := map (\<lambda>p. (fst p, NullValue)) (ivm s),
              func_results := types @ func_results s,
              irm := irm s ++
                map_of (rev (map (\<lambda>p. (fst p, value_rank (snd p), value_dist (snd p))) (ivm s))),
              body := (if itac
                       then [CallOp ''VT_begin''] @ body s @ [ConstantOp, CallOp ''VT_end'']
                       else body s) @ [ReturnOp (map snd (ivm s))]\<rparr>"
    by blast
  from t have len: "length types = length (ivm s)"
    by (metis length_map)
  have rm: "irm s' (fst p) = Some (value_rank (snd p), value_dist (snd p))" if "p \<in> set (ivm s)" for p
  proof -
    from that have "map_of (ivm s) (fst p) = Some (snd p)"
      using map_of_is_SomeI [OF assms(2), of "fst p" "snd p"] by simp
    then show ?thesis
      by (simp add: s' irm_after_handleResult [OF assms(2)])
  qed
  have "last (body s') = ReturnOp (map snd (ivm s))"
    by (simp add: s')
  moreover have "map Some (take (length (ivm s)) (func_results s')) = map (\<lambda>p. getType (snd p)) (ivm s)"
    using t len by (simp add: s')
  moreover have "drop (length (ivm s)) (func_results s') = func_results s"
    using len by (simp add: s')
  moreover have "map fst (ivm s') = map fst (ivm s)"
    by (simp add: s' comp_def)
  moreover have "func_args s' = func_args s" "args s' = args s"
    by (simp_all add: s')
  ultimately show ?thesis
    using h rm unfolding result_words_def by blast
qed

theorem handleResult_returns_twice_total_witness:
  "\<exists>s'. handleResult False example_state = Inr (50, s')
     \<and> last (body s') = ReturnOp [example_local, example_dist]
     \<and> map Some (func_results s') = [getType example_local, getType example_dist]
     \<and> irm s' 8 = Some (1, False) \<and> irm s' 9 = Some (1, True)
     \<and> map fst (ivm s') = [8, 9]"
proof -
  have a: "list_all (\<lambda>p. is_ptensor_value (snd p)) (ivm example_state)"
    by (simp add: example_state_def example_values)
  have d: "distinct (map fst (ivm example_state))"
    by (simp add: example_state_def)
  from handleResult_returns_twice_total [OF a d, of False]
  obtain s' where
    "handleResult False example_state =
       Inr (2 * sum_list (map (\<lambda>p. ptensor_sz (value_rank (snd p)) (value_dist (snd p)))
                           (ivm example_state)), s')"
    "last (body s') = ReturnOp (map snd (ivm example_state))"
    "map Some (take (length (ivm example_state)) (func_results s')) =
       map (\<lambda>p. getType (snd p)) (ivm example_state)"
    "drop (length (ivm example_state)) (func_results s') = func_results example_state"
    "\<forall>p\<in>set (ivm example_state). irm s' (fst p) = Some (value_rank (snd p), value_dist (snd p))"
    "map fst (ivm s') = map fst (ivm example_state)"
    by blast
  then have "handleResult False example_state = Inr (50, s')
     \<and> last (body s') = ReturnOp [example_local, example_dist]
     \<and> map Some (func_results s') = [getType example_local, getType example_dist]
     \<and> irm s' 8 = Some (1, False) \<and> irm s' 9 = Some (1, True)
     \<and> map fst (ivm s') = [8, 9]"
    by (simp add: example_state_def example_values ptensor_sz_def memref_sz_def)
  then show ?thesis by (rule exI)
qed

section \<open>Adding and dropping values\<close>

text \<open>
  C7.  \<open>drop\<close> removes the entries of exactly the given id from \<open>ivm\<close>, \<open>icm\<close> and \<open>icr\<close>
  and deletes the id from the Registry; the entries of every other id, and their order,
  stay as they were.  Nothing of this depends on the id being in \<open>ivm\<close>: for an id that
  is not there \<open>ivm\<close> is unchanged and the id is still deleted from the Registry.  The
  service node \<open>DROP\<close> does exactly this and asks for no eager execution.
\<close>

theorem drop_removes_exactly_guid:
  "map_of (ivm (drop_guid guid s)) guid = None
   \<and> icm (drop_guid guid s) guid = None
   \<and> map_of (icr (drop_guid guid s)) guid = None
   \<and> registry (drop_guid guid s) guid = None
   \<and> (\<forall>g. g \<noteq> guid \<longrightarrow>
          map_of (ivm (drop_guid guid s)) g = map_of (ivm s) g
          \<and> icm (drop_guid guid s) g = icm s g
          \<and> map_of (icr (drop_guid guid s)) g = map_of (icr s) g
          \<and> registry (drop_guid guid s) g = registry s g)
   \<and> ivm (drop_guid guid s) = filter (\<lambda>p. fst p \<noteq> guid) (ivm s)
   \<and> icr (drop_guid guid s) = filter (\<lambda>p. fst p \<noteq> guid) (icr s)
   \<and> (map_of (ivm s) guid = None \<longrightarrow>
          ivm (drop_guid guid s) = ivm s \<and> registry (drop_guid guid s) guid = None)
   \<and> DeferredService_generate_mlir DROP guid s = Inr (False, drop_guid guid s)"
  by (simp add: drop_guid_def map_of_om_erase Registry_del_def om_erase_absent
      map_of_eq_None_iff DeferredService_generate_mlir_def) (simp add: om_erase_def)

theorem drop_removes_exactly_guid_witness:
  "ivm (drop_guid 8 example_state) = [(9, example_dist)]
   \<and> icm (drop_guid 8 example_state) 8 = None
   \<and> icm (drop_guid 8 example_state) 9 = Some 1
   \<and> icr (drop_guid 8 example_state) = []
   \<and> registry (drop_guid 8 example_state) 8 = None
   \<and> registry (drop_guid 8 example_state) 7 = Some example_x
   \<and> ivm (drop_guid 7 example_state) = ivm example_state
   \<and> registry (drop_guid 7 example_state) 7 = None"
  using drop_removes_exactly_guid [of 8 example_state]
    drop_removes_exactly_guid [of 7 example_state]
  by (simp add: example_state_def)

text \<open>
  C8.  \<open>addVal\<close> on an id that is already in \<open>ivm\<close> is a failed assertion.  On an id
  that is not, it records the value and the delivery callback, and a following
  \<open>getDependent\<close> of the id returns exactly this value and leaves the manager as it is:
  no argument is synthesised and nothing is appended to \<open>args\<close>.
\<close>

theorem addVal_then_getDependent:
  "(map_of (ivm s) guid \<noteq> None \<longrightarrow> addVal guid val cb s = Inl InvariantViolation)
   \<and> (map_of (ivm s) guid = None \<longrightarrow>
        (\<exists>s'. addVal guid val cb s = Inr s'
           \<and> ivm s' = ivm s @ [(guid, val)]
           \<and> map_of (ivm s') guid = Some val
           \<and> icm s' guid = Some cb
           \<and> args s' = args s \<and> func_args s' = func_args s
           \<and> getDependent guid s' = Inr (val, s')))"
proof -
  have "\<exists>s'. addVal guid val cb s = Inr s'
           \<and> ivm s' = ivm s @ [(guid, val)]
           \<and> map_of (ivm s') guid = Some val
           \<and> icm s' guid = Some cb
           \<and> args s' = args s \<and> func_args s' = func_args s
           \<and> getDependent guid s' = Inr (val, s')" if n: "map_of (ivm s) guid = None"
  proof -
    let ?s' = "s\<lparr>ivm := ivm s @ [(guid, val)], icm := (icm s)(guid \<mapsto> cb)\<rparr>"
    from n have k: "guid \<notin> fst ` set (ivm s)" by (simp add: map_of_eq_None_iff)
    have a: "addVal guid val cb s = Inr ?s'"
      using n by (simp add: addVal_def om_assign_new [OF k])
    have m': "map_of (ivm s @ [(guid, val)]) guid = Some val"
      using n by (simp add: map_add_def)
    then have m: "map_of (ivm ?s') guid = Some val"
      by simp
    have g: "getDependent guid ?s' = Inr (val, ?s')" by (rule getDependent_hit [OF m])
    show ?thesis
      by (rule exI [of _ ?s']) (simp add: a m' g del: map_of_append)
  qed
  moreover have "map_of (ivm s) guid \<noteq> None \<longrightarrow> addVal guid val cb s = Inl InvariantViolation"
    by (simp add: addVal_def)
  ultimately show ?thesis by blast
qed

theorem addVal_then_getDependent_witness:
  "addVal 8 example_dist 5 example_state = Inl InvariantViolation
   \<and> (\<exists>s'. addVal 10 example_dist 5 example_state = Inr s'
         \<and> ivm s' = [(8, example_local), (9, example_dist), (10, example_dist)]
         \<and> icm s' 10 = Some 5
         \<and> args s' = [(7, example_x)]
         \<and> getDependent 10 s' = Inr (example_dist, s'))"
proof -
  have i: "map_of (ivm example_state) 8 \<noteq> None" "map_of (ivm example_state) 10 = None"
    by (simp_all add: example_state_def)
  from addVal_then_getDependent [of example_state 8 example_dist 5] i(1)
  have 1: "addVal 8 example_dist 5 example_state = Inl InvariantViolation"
    by blast
  from addVal_then_getDependent [of example_state 10 example_dist 5] i(2)
  obtain s' where "addVal 10 example_dist 5 example_state = Inr s'"
    "ivm s' = ivm example_state @ [(10, example_dist)]" "icm s' 10 = Some 5"
    "args s' = args example_state" "getDependent 10 s' = Inr (example_dist, s')"
    by blast
  then have "addVal 10 example_dist 5 example_state = Inr s'
         \<and> ivm s' = [(8, example_local), (9, example_dist), (10, example_dist)]
         \<and> icm s' 10 = Some 5
         \<and> args s' = [(7, example_x)]
         \<and> getDependent 10 s' = Inr (example_dist, s')"
    by (simp add: example_state_def)
  then have "\<exists>s'. addVal 10 example_dist 5 example_state = Inr s'
         \<and> ivm s' = [(8, example_local), (9, example_dist), (10, example_dist)]
         \<and> icm s' 10 = Some 5
         \<and> args s' = [(7, example_x)]
         \<and> getDependent 10 s' = Inr (example_dist, s')"
    by (rule exI)
  with 1 show ?thesis by (rule conjI)
qed

section \<open>Resolving a dependency\<close>

text \<open>
  C4, as the claim states it, fails for an id that is registered with an array whose
  element-type tag is outside the supported set: the id is not in \<open>ivm\<close>, the Registry
  has it, and yet no argument is synthesised; the call fails with UnknownDtype.
\<close>

theorem getDependent_registered_counterexample:
  "map_of (ivm (DepManager_new [7 \<mapsto> example_bad] :: (nat, nat) DepManager)) 7 = None
   \<and> registry (DepManager_new [7 \<mapsto> example_bad] :: (nat, nat) DepManager) 7 = Some example_bad
   \<and> getDependent 7 (DepManager_new [7 \<mapsto> example_bad] :: (nat, nat) DepManager)
       = Inl UnknownDtype"
  by (simp add: getDependent_def Registry_get_def arg_type_example_bad DepManager_new_def)

text \<open>
  C4, amended.  \<open>getDependent\<close> returns the value recorded in \<open>ivm\<close> and changes nothing
  when the id is in \<open>ivm\<close>.  Otherwise it asks the Registry: an id that is absent there
  fails with the Registry's lookup error; an id registered with an unsupported
  element-type tag fails with UnknownDtype; in both cases nothing changes.  An id
  registered with a supported tag gets exactly one new function argument, inserted at
  position \<open>args.size() - 1\<close> (counted after the append), exactly one pair appended to
  \<open>args\<close>, and the argument recorded in \<open>ivm\<close> and returned; a second call returns the
  same value and changes nothing.
\<close>

theorem getDependent_resolves:
  "(map_of (ivm s) guid = Some d \<longrightarrow> getDependent guid s = Inr (d, s))
   \<and> (map_of (ivm s) guid = None \<and> registry s guid = None \<longrightarrow>
        getDependent guid s = Inl (UnknownGuid guid))
   \<and> (map_of (ivm s) guid = None \<and> registry s guid = Some fut
        \<and> t_dtype (f_impl fut) = DTYPE_LAST \<longrightarrow>
        getDependent guid s = Inl UnknownDtype)
   \<and> (map_of (ivm s) guid = None \<and> registry s guid = Some fut
        \<and> t_dtype (f_impl fut) \<noteq> DTYPE_LAST \<longrightarrow>
        (\<exists>aty s'. arg_type fut = Inr aty
           \<and> getDependent guid s = Inr (BlockArgument (length (args s)) aty, s')
           \<and> args s' = args s @ [(guid, fut)]
           \<and> func_args s' = insert_at (length (args s') - 1) aty (func_args s)
           \<and> length (func_args s') = length (func_args s) + 1
           \<and> ivm s' = ivm s @ [(guid, BlockArgument (length (args s)) aty)]
           \<and> icm s' = icm s \<and> icr s' = icr s \<and> irm s' = irm s
           \<and> func_results s' = func_results s \<and> registry s' = registry s
           \<and> getDependent guid s' = Inr (BlockArgument (length (args s)) aty, s')))"
proof -
  have 1: "getDependent guid s = Inl UnknownDtype"
    if "map_of (ivm s) guid = None" "registry s guid = Some fut" "t_dtype (f_impl fut) = DTYPE_LAST"
  proof -
    from that(3) have "arg_type fut = Inl UnknownDtype"
      by (simp add: arg_type_def getTType_def Let_def)
    with that show ?thesis by (simp add: getDependent_bad_dtype)
  qed
  have 2: "\<exists>aty s'. arg_type fut = Inr aty
           \<and> getDependent guid s = Inr (BlockArgument (length (args s)) aty, s')
           \<and> args s' = args s @ [(guid, fut)]
           \<and> func_args s' = insert_at (length (args s') - 1) aty (func_args s)
           \<and> length (func_args s') = length (func_args s) + 1
           \<and> ivm s' = ivm s @ [(guid, BlockArgument (length (args s)) aty)]
           \<and> icm s' = icm s \<and> icr s' = icr s \<and> irm s' = irm s
           \<and> func_results s' = func_results s \<and> registry s' = registry s
           \<and> getDependent guid s' = Inr (BlockArgument (length (args s)) aty, s')"
    if n: "map_of (ivm s) guid = None" and r: "registry s guid = Some fut"
      and t: "t_dtype (f_impl fut) \<noteq> DTYPE_LAST"
  proof -
    from arg_type_total [OF t] obtain aty where a: "arg_type fut = Inr aty" ..
    let ?v = "BlockArgument (length (args s)) aty"
    let ?s' = "s\<lparr>func_args := insert_at (length (args s)) aty (func_args s),
              args := args s @ [(guid, fut)],
              ivm := ivm s @ [(guid, ?v)]\<rparr>"
    have g: "getDependent guid s = Inr (?v, ?s')"
      by (rule getDependent_miss [OF n r a])
    have m': "map_of (ivm s @ [(guid, ?v)]) guid = Some ?v"
      using n by (simp add: map_add_def)
    then have m: "map_of (ivm ?s') guid = Some ?v" by simp
    have h: "getDependent guid ?s' = Inr (?v, ?s')"
      by (rule getDependent_hit [OF m])
    show ?thesis
      apply (rule exI [of _ aty])
      apply (rule exI [of _ ?s'])
      apply (simp add: a g h m' length_insert_at del: map_of_append)
      done
  qed
  from 1 2 show ?thesis
    by (simp add: getDependent_hit getDependent_unknown)
qed

theorem getDependent_resolves_witness:
  "getDependent 8 example_state = Inr (example_local, example_state)
   \<and> getDependent 3 example_state = Inl (UnknownGuid 3)
   \<and> getDependent 7 (DepManager_new [7 \<mapsto> example_bad] :: (nat, nat) DepManager)
        = Inl UnknownDtype
   \<and> (\<exists>s'. getDependent 7 (DepManager_new [7 \<mapsto> example_x] :: (nat, nat) DepManager)
           = Inr (BlockArgument 0 example_x_type, s')
         \<and> args s' = [(7, example_x)]
         \<and> func_args s' = [example_x_type]
         \<and> ivm s' = [(7, BlockArgument 0 example_x_type)]
         \<and> getDependent 7 s' = Inr (BlockArgument 0 example_x_type, s'))"
proof -
  let ?bad = "DepManager_new [7 \<mapsto> example_bad] :: (nat, nat) DepManager"
  let ?new = "DepManager_new [7 \<mapsto> example_x] :: (nat, nat) DepManager"
  have e: "map_of (ivm example_state) 8 = Some example_local"
    "map_of (ivm example_state) 3 = None" "registry example_state 3 = None"
    by (simp_all add: example_state_def)
  have b: "map_of (ivm ?bad) 7 = None" "registry ?bad 7 = Some example_bad"
    "t_dtype (f_impl example_bad) = DTYPE_LAST"
    by (simp_all add: DepManager_new_def example_bad_def)
  have n: "map_of (ivm ?new) 7 = None" "registry ?new 7 = Some example_x"
    "t_dtype (f_impl example_x) \<noteq> DTYPE_LAST"
    by (simp_all add: DepManager_new_def example_x_def)
  from getDependent_resolves [of example_state 8 example_local] e(1)
  have 1: "getDependent 8 example_state = Inr (example_local, example_state)"
    by blast
  from getDependent_resolves [of example_state 3] e(2,3)
  have 2: "getDependent 3 example_state = Inl (UnknownGuid 3)"
    by blast
  from getDependent_resolves [of ?bad 7 _ example_bad] b
  have 3: "getDependent 7 ?bad = Inl UnknownDtype"
    by blast
  from getDependent_resolves [of ?new 7 _ example_x] n
  obtain aty s' where "arg_type example_x = Inr aty"
    "getDependent 7 ?new = Inr (BlockArgument (length (args ?new)) aty, s')"
    "args s' = args ?new @ [(7, example_x)]"
    "func_args s' = insert_at (length (args s') - 1) aty (func_args ?new)"
    "ivm s' = ivm ?new @ [(7, BlockArgument (length (args ?new)) aty)]"
    "getDependent 7 s' = Inr (BlockArgument (length (args ?new)) aty, s')"
    by blast
  then have "getDependent 7 ?new = Inr (BlockArgument 0 example_x_type, s')
         \<and> args s' = [(7, example_x)]
         \<and> func_args s' = [example_x_type]
         \<and> ivm s' = [(7, BlockArgument 0 example_x_type)]
         \<and> getDependent 7 s' = Inr (BlockArgument 0 example_x_type, s')"
    by (simp add: arg_type_example_x DepManager_new_def insert_at_def)
  then have 4: "\<exists>s'. getDependent 7 ?new = Inr (BlockArgument 0 example_x_type, s')
         \<and> args s' = [(7, example_x)]
         \<and> func_args s' = [example_x_type]
         \<and> ivm s' = [(7, BlockArgument 0 example_x_type)]
         \<and> getDependent 7 s' = Inr (BlockArgument 0 example_x_type, s')"
    by (rule exI)
  from 1 2 3 4 show ?thesis by (intro conjI)
qed

section \<open>Decoding the output buffer\<close>

lemma getMR_at:
  assumes "p + memref_sz R \<le> length output"
  shows "getMR R (drop p output) = (memref_at R output p, memref_sz R)"
proof -
  from assms have l: "p \<le> length output" "3 + p \<le> length output" "3 + R + p \<le> length output"
    by (simp_all add: memref_sz_def)
  have "c_array (drop 3 (drop p output)) R = map (\<lambda>i. output ! (p + 3 + i)) [0..<R]"
    using l by (simp add: c_array_def add.commute add.left_commute)
  moreover have "c_array (drop (3 + R) (drop p output)) R = map (\<lambda>i. output ! (p + 3 + R + i)) [0..<R]"
    using l by (simp add: c_array_def add.commute add.left_commute)
  ultimately show ?thesis
    using l by (simp add: getMR_def memref_at_def)
qed

lemma deliver_loop_step:
  assumes c: "cm guid = Some cb" and r: "rm guid = Some (R, d)"
    and l: "pos + ptensor_sz R d \<le> length output"
  shows "deliver_loop ((guid, v) # rs) pos output cm rm =
           (case deliver_loop rs (pos + ptensor_sz R d) output cm rm of
              Inl e \<Rightarrow> Inl e
            | Inr (ds, p, rm') \<Rightarrow> Inr (decode_result guid cb R d output pos # ds, p, rm'))"
proof -
  have u: "rm(guid \<mapsto> (R, d)) = rm"
    using r by (simp add: fun_upd_idem)
  show ?thesis
  proof (cases "0 < R \<and> d")
    case True
    then have cond: "(0 < R \<and> d) = True" by simp
    from True l have b: "pos + 3 * memref_sz R + memref_sz 1 \<le> length output"
      by (simp add: ptensor_sz_def)
    then have nb: "(length output < pos + 3 * memref_sz R + memref_sz 1) = False"
      by simp
    from b have g: "getMR R (drop pos output) = (memref_at R output pos, memref_sz R)"
      "getMR R (drop (pos + memref_sz R) output) =
         (memref_at R output (pos + memref_sz R), memref_sz R)"
      "getMR R (drop (pos + memref_sz R + memref_sz R) output) =
         (memref_at R output (pos + memref_sz R + memref_sz R), memref_sz R)"
      by (simp_all add: getMR_at)
    have p: "pos + memref_sz R + memref_sz R + memref_sz R + memref_sz 1 = pos + ptensor_sz R d"
      using True by (simp add: ptensor_sz_def)
    have dr: "decode_result guid cb R d output pos =
        \<lparr>dl_guid = guid, dl_cb = cb, dl_rank = R,
         dl_lhsHalo = Some (memref_at R output pos),
         dl_lData = memref_at R output (pos + memref_sz R),
         dl_rhsHalo = Some (memref_at R output (pos + memref_sz R + memref_sz R)),
         dl_lo = Some (output ! (pos + memref_sz R + memref_sz R + memref_sz R),
                       output ! (pos + memref_sz R + memref_sz R + memref_sz R + 1)
                         + 8 * output ! (pos + memref_sz R + memref_sz R + memref_sz R + 2))\<rparr>"
    proof -
      have e: "pos + 2 * memref_sz R = pos + memref_sz R + memref_sz R"
        "pos + 3 * memref_sz R = pos + memref_sz R + memref_sz R + memref_sz R"
        by simp_all
      show ?thesis
        unfolding decode_result_def e using True by simp
    qed
    show ?thesis
      unfolding deliver_loop.simps Let_def fst_conv snd_conv c r option.case prod.case u
        cond nb if_True if_False g p dr
      by (rule refl)
  next
    case False
    then have cond: "(0 < R \<and> d) = False" by simp
    from False l have b: "pos + memref_sz R \<le> length output"
      by (auto simp: ptensor_sz_def)
    then have nb: "(length output < pos + memref_sz R) = False"
      by simp
    from b have g: "getMR R (drop pos output) = (memref_at R output pos, memref_sz R)"
      by (simp add: getMR_at)
    have p: "pos + memref_sz R = pos + ptensor_sz R d"
      using False by (auto simp: ptensor_sz_def)
    have dr: "decode_result guid cb R d output pos =
        \<lparr>dl_guid = guid, dl_cb = cb, dl_rank = R,
         dl_lhsHalo = None, dl_lData = memref_at R output pos,
         dl_rhsHalo = None, dl_lo = None\<rparr>"
      using False by (auto simp: decode_result_def)
    show ?thesis
      unfolding deliver_loop.simps Let_def fst_conv snd_conv c r option.case prod.case u
        cond nb if_True if_False g dr
      unfolding p
      by (rule refl)
  qed
qed

lemma deliver_loop_nth:
  assumes "list_all (\<lambda>p. cm (fst p) \<noteq> None \<and> rm (fst p) \<noteq> None) es"
    and "pos + sum_list (map (\<lambda>p. ptensor_sz (fst (the (rm (fst p)))) (snd (the (rm (fst p))))) es)
           \<le> length outp"
  shows "\<exists>ds. deliver_loop es pos outp cm rm =
            Inr (ds, pos + sum_list (map (\<lambda>p. ptensor_sz (fst (the (rm (fst p))))
                                                (snd (the (rm (fst p))))) es), rm)
          \<and> length ds = length es
          \<and> (\<forall>i<length es.
                ds ! i = decode_result (fst (es ! i)) (the (cm (fst (es ! i))))
                           (fst (the (rm (fst (es ! i))))) (snd (the (rm (fst (es ! i))))) outp
                           (pos + sum_list (map (\<lambda>p. ptensor_sz (fst (the (rm (fst p))))
                                                      (snd (the (rm (fst p))))) (take i es))))"
  using assms
proof (induction es arbitrary: pos)
  case Nil
  then show ?case by simp
next
  case (Cons e es)
  let ?W = "\<lambda>p. ptensor_sz (fst (the (rm (fst p)))) (snd (the (rm (fst p))))"
  from Cons.prems(1) obtain cb R d where c: "cm (fst e) = Some cb" and r: "rm (fst e) = Some (R, d)"
    by auto
  have w: "?W e = ptensor_sz R d" by (simp add: r)
  from Cons.prems(2) have l: "pos + ptensor_sz R d \<le> length outp"
    by (simp add: w)
  from Cons.prems(1) have p1: "list_all (\<lambda>p. cm (fst p) \<noteq> None \<and> rm (fst p) \<noteq> None) es"
    by simp
  from Cons.prems(2) have p2: "(pos + ptensor_sz R d) + sum_list (map ?W es) \<le> length outp"
    by (simp add: w add.assoc)
  from Cons.IH [OF p1 p2] obtain ds where
    dl: "deliver_loop es (pos + ptensor_sz R d) outp cm rm =
           Inr (ds, (pos + ptensor_sz R d) + sum_list (map ?W es), rm)"
    and len: "length ds = length es"
    and nth: "\<forall>i<length es.
                ds ! i = decode_result (fst (es ! i)) (the (cm (fst (es ! i))))
                           (fst (the (rm (fst (es ! i))))) (snd (the (rm (fst (es ! i))))) outp
                           ((pos + ptensor_sz R d) + sum_list (map ?W (take i es)))"
    by blast
  have step: "deliver_loop (e # es) pos outp cm rm =
      Inr (decode_result (fst e) cb R d outp pos # ds,
           (pos + ptensor_sz R d) + sum_list (map ?W es), rm)"
    using deliver_loop_step [where cm = cm and rm = rm and v = "snd e" and rs = es, OF c r l]
    by (simp add: dl del: deliver_loop.simps)
  have n: "(decode_result (fst e) cb R d outp pos # ds) ! i =
           decode_result (fst ((e # es) ! i)) (the (cm (fst ((e # es) ! i))))
             (fst (the (rm (fst ((e # es) ! i))))) (snd (the (rm (fst ((e # es) ! i))))) outp
             (pos + sum_list (map ?W (take i (e # es))))"
    if "i < length (e # es)" for i
  proof (cases i)
    case 0
    then show ?thesis by (simp add: c r)
  next
    case (Suc j)
    with that have "j < length es" by simp
    with nth have "ds ! j = decode_result (fst (es ! j)) (the (cm (fst (es ! j))))
                           (fst (the (rm (fst (es ! j))))) (snd (the (rm (fst (es ! j))))) outp
                           ((pos + ptensor_sz R d) + sum_list (map ?W (take j es)))"
      by blast
    then show ?thesis
      by (simp add: Suc w add.assoc)
  qed
  show ?case
    apply (rule exI [of _ "decode_result (fst e) cb R d outp pos # ds"])
    using n len by (simp add: step w add.assoc del: deliver_loop.simps)
qed

section \<open>Order of arguments, results and deliveries\<close>

lemma handleResult_post:
  assumes hr: "handleResult itac s = Inr (osz, s')" and d: "distinct (map fst (ivm s))"
  shows "osz = 2 * sum_list (map (\<lambda>p. result_words (snd p)) (ivm s))"
    and "ivm s' = map (\<lambda>p. (fst p, NullValue)) (ivm s)"
    and "last (body s') = ReturnOp (map snd (ivm s))"
    and "\<forall>p\<in>set (ivm s). irm s' (fst p) = Some (value_rank (snd p), value_dist (snd p))"
    and "func_args s' = func_args s" and "args s' = args s"
    and "icm s' = icm s" and "icr s' = icr s"
proof -
  from handleResult_eq [OF handleResult_live [OF hr], of itac] hr
  obtain types where o: "osz = 2 * sum_list (map (\<lambda>p. result_words (snd p)) (ivm s))"
    and s': "s' = s\<lparr>ivm := map (\<lambda>p. (fst p, NullValue)) (ivm s),
              func_results := types @ func_results s,
              irm := irm s ++
                map_of (rev (map (\<lambda>p. (fst p, value_rank (snd p), value_dist (snd p))) (ivm s))),
              body := (if itac
                       then [CallOp ''VT_begin''] @ body s @ [ConstantOp, CallOp ''VT_end'']
                       else body s) @ [ReturnOp (map snd (ivm s))]\<rparr>"
    by auto
  show "osz = 2 * sum_list (map (\<lambda>p. result_words (snd p)) (ivm s))" by (rule o)
  show "ivm s' = map (\<lambda>p. (fst p, NullValue)) (ivm s)" by (simp add: s')
  show "last (body s') = ReturnOp (map snd (ivm s))" by (simp add: s')
  show "func_args s' = func_args s" "args s' = args s" "icm s' = icm s" "icr s' = icr s"
    by (simp_all add: s')
  show "\<forall>p\<in>set (ivm s). irm s' (fst p) = Some (value_rank (snd p), value_dist (snd p))"
  proof
    fix p assume "p \<in> set (ivm s)"
    then have "map_of (ivm s) (fst p) = Some (snd p)"
      using map_of_is_SomeI [OF d, of "fst p" "snd p"] by simp
    then show "irm s' (fst p) = Some (value_rank (snd p), value_dist (snd p))"
      by (simp add: s' irm_after_handleResult [OF d])
  qed
qed

text \<open>
  C1.  Take any batch (any sequence of operations on a fresh manager) that has reached
  a state \<open>s\<close> in which every remaining entry of \<open>ivm\<close> has a delivery callback, let
  \<open>handleResult\<close> run there, and let \<open>deliver\<close> read an output vector of the reported
  size.  Then the declared argument types are, position by position, the types
  synthesised for the entries of \<open>args\<close>; the return operation holds the values in the
  order of \<open>ivm\<close> at that time; \<open>deliver\<close> walks the same ids in the same order; and its
  i-th delivery is decoded, with the rank and distribution flag \<open>handleResult\<close> recorded
  in \<open>irm\<close> for the i-th id, from the position where the i-th result starts when the
  results are laid out back to back.
\<close>

theorem stable_order:
  assumes hist: "apply_ops ops (DepManager_new reg) = Inr s"
    and cbs: "list_all (\<lambda>p. icm s (fst p) \<noteq> None) (ivm s)"
    and hr: "handleResult itac s = Inr (osz, s')"
    and len: "length outputV = osz"
  shows "map Inr (func_args s') = map (\<lambda>a. arg_type (snd a)) (args s')
       \<and> last (body s') = ReturnOp (map snd (ivm s))
       \<and> map fst (ivm s') = map fst (ivm s)
       \<and> (\<exists>ds rs s''. deliver outputV osz s' = Inr (ds, rs, s'')
             \<and> length ds = length (ivm s)
             \<and> (\<forall>i<length (ivm s).
                   irm s' (fst (ivm s ! i)) =
                     Some (value_rank (snd (ivm s ! i)), value_dist (snd (ivm s ! i)))
                   \<and> (\<exists>cb. icm s (fst (ivm s ! i)) = Some cb
                        \<and> ds ! i =
                            decode_result (fst (ivm s ! i)) cb
                              (value_rank (snd (ivm s ! i))) (value_dist (snd (ivm s ! i))) outputV
                              (sum_list (map (\<lambda>p. result_words (snd p)) (take i (ivm s)))))))"
proof -
  from batch_invariant [OF hist]
  have d: "distinct (map fst (ivm s))"
    and ao: "map Inr (func_args s) = map (\<lambda>a. arg_type (snd a)) (args s)"
    by simp_all
  note post = handleResult_post [OF hr d]
  let ?es = "ivm s'"
  let ?W = "\<lambda>p. ptensor_sz (fst (the (irm s' (fst p)))) (snd (the (irm s' (fst p))))"
  have es: "?es = map (\<lambda>p. (fst p, NullValue)) (ivm s)" by (rule post(2))
  have rm: "irm s' (fst p) = Some (value_rank (snd p), value_dist (snd p))"
    if "p \<in> set (ivm s)" for p
    using post(4) that by blast
  have W: "map ?W (map (\<lambda>p. (fst p, NullValue)) xs) = map (\<lambda>p. result_words (snd p)) xs"
    if "set xs \<subseteq> set (ivm s)" for xs
    using that by (induction xs) (simp_all add: rm result_words_def)
  have Wall: "map ?W ?es = map (\<lambda>p. result_words (snd p)) (ivm s)"
    unfolding es by (rule W) simp
  have Wtake: "map ?W (take i ?es) = map (\<lambda>p. result_words (snd p)) (take i (ivm s))" for i
    unfolding es take_map by (rule W) (rule set_take_subset)
  have a1: "list_all (\<lambda>p. icm s' (fst p) \<noteq> None \<and> irm s' (fst p) \<noteq> None) ?es"
    using cbs by (simp add: es post(7) list_all_iff rm)
  have a2: "0 + sum_list (map ?W ?es) \<le> length outputV"
    by (simp add: Wall len post(1))
  from deliver_loop_nth [where cm = "icm s'" and rm = "irm s'", OF a1 a2]
  obtain ds where dl: "deliver_loop ?es 0 outputV (icm s') (irm s') =
            Inr (ds, 0 + sum_list (map ?W ?es), irm s')"
    and dlen: "length ds = length ?es"
    and dnth: "\<forall>i<length ?es.
                ds ! i = decode_result (fst (?es ! i)) (the (icm s' (fst (?es ! i))))
                           (fst (the (irm s' (fst (?es ! i))))) (snd (the (irm s' (fst (?es ! i)))))
                           outputV (0 + sum_list (map ?W (take i ?es)))"
    by blast
  have le: "length ?es = length (ivm s)" by (simp add: es)
  have dv: "deliver outputV osz s' = Inr (ds, ready_signals (icr s'), s'\<lparr>irm := irm s'\<rparr>)"
    by (simp add: deliver_def dl)
  have each: "irm s' (fst (ivm s ! i)) =
                     Some (value_rank (snd (ivm s ! i)), value_dist (snd (ivm s ! i)))
                   \<and> (\<exists>cb. icm s (fst (ivm s ! i)) = Some cb
                        \<and> ds ! i =
                            decode_result (fst (ivm s ! i)) cb
                              (value_rank (snd (ivm s ! i))) (value_dist (snd (ivm s ! i))) outputV
                              (sum_list (map (\<lambda>p. result_words (snd p)) (take i (ivm s)))))"
    if i: "i < length (ivm s)" for i
  proof -
    from i have m: "ivm s ! i \<in> set (ivm s)" by simp
    from i have e: "fst (?es ! i) = fst (ivm s ! i)" by (simp add: es)
    from cbs m obtain cb where cb: "icm s (fst (ivm s ! i)) = Some cb"
      by (auto simp: list_all_iff)
    from dnth i le have "ds ! i = decode_result (fst (?es ! i)) (the (icm s' (fst (?es ! i))))
                           (fst (the (irm s' (fst (?es ! i))))) (snd (the (irm s' (fst (?es ! i)))))
                           outputV (0 + sum_list (map ?W (take i ?es)))"
      by simp
    then have "ds ! i = decode_result (fst (ivm s ! i)) cb
                 (value_rank (snd (ivm s ! i))) (value_dist (snd (ivm s ! i))) outputV
                 (sum_list (map (\<lambda>p. result_words (snd p)) (take i (ivm s))))"
      unfolding e Wtake by (simp add: rm [OF m] post(7) cb)
    with rm [OF m] cb show ?thesis by blast
  qed
  have "map Inr (func_args s') = map (\<lambda>a. arg_type (snd a)) (args s')"
    using ao by (simp add: post(5,6))
  moreover have "last (body s') = ReturnOp (map snd (ivm s))" by (rule post(3))
  moreover have "map fst (ivm s') = map fst (ivm s)" by (simp add: es comp_def)
  moreover have "\<exists>ds rs s''. deliver outputV osz s' = Inr (ds, rs, s'')
             \<and> length ds = length (ivm s)
             \<and> (\<forall>i<length (ivm s).
                   irm s' (fst (ivm s ! i)) =
                     Some (value_rank (snd (ivm s ! i)), value_dist (snd (ivm s ! i)))
                   \<and> (\<exists>cb. icm s (fst (ivm s ! i)) = Some cb
                        \<and> ds ! i =
                            decode_result (fst (ivm s ! i)) cb
                              (value_rank (snd (ivm s ! i))) (value_dist (snd (ivm s ! i))) outputV
                              (sum_list (map (\<lambda>p. result_words (snd p)) (take i (ivm s))))))"
    apply (rule exI [of _ ds])
    apply (rule exI [of _ "ready_signals (icr s')"])
    apply (rule exI [of _ "s'\<lparr>irm := irm s'\<rparr>"])
    using dv dlen le each apply simp
    done
  ultimately show ?thesis by (intro conjI)
qed

lemma example_batch_stored:
  "apply_ops [GetDependent 7, AddVal 8 example_local 0, AddVal 9 example_dist 1,
              AddReady 8 0, StoreInputs]
     (DepManager_new [7 \<mapsto> example_x, 8 \<mapsto> example_x]) = Inr example_state"
proof -
  have i: "([8 \<mapsto> 0 :: nat, 9 \<mapsto> 1] |` (- {7 :: id_type})) = [8 \<mapsto> 0, 9 \<mapsto> 1]"
    by (auto simp: fun_eq_iff restrict_map_def)
  show ?thesis
    by (simp add: getDependent_def Registry_get_def arg_type_example_x DepManager_new_def
        insert_at_def addVal_def addReady_def store_inputs_eq Let_def example_state_def i)
qed

lemma example_handleResult: "\<exists>s'. handleResult False example_state = Inr (50, s')"
proof -
  have a: "list_all (\<lambda>p. is_ptensor_value (snd p)) (ivm example_state)"
    by (simp add: example_state_def example_values)
  from handleResult_eq [OF a, of False] obtain s' where
    "handleResult False example_state =
       Inr (2 * sum_list (map (\<lambda>p. result_words (snd p)) (ivm example_state)), s')"
    by blast
  then have "handleResult False example_state = Inr (50, s')"
    by (simp add: example_state_def result_words_def example_values ptensor_sz_def memref_sz_def)
  then show ?thesis ..
qed

theorem stable_order_witness:
  "\<exists>s s' ds rs s''.
     apply_ops [GetDependent 7, AddVal 8 example_local 0, AddVal 9 example_dist 1,
                AddReady 8 0, StoreInputs]
       (DepManager_new [7 \<mapsto> example_x, 8 \<mapsto> example_x] :: (nat, nat) DepManager) = Inr s
     \<and> handleResult False s = Inr (50, s')
     \<and> map Inr (func_args s') = [arg_type example_x]
     \<and> args s' = [(7, example_x)]
     \<and> last (body s') = ReturnOp [example_local, example_dist]
     \<and> map fst (ivm s') = [8, 9]
     \<and> irm s' 8 = Some (1, False) \<and> irm s' 9 = Some (1, True)
     \<and> deliver (map of_nat [100..<150]) 50 s' = Inr (ds, rs, s'')
     \<and> ds = [decode_result 8 0 1 False (map of_nat [100..<150]) 0,
              decode_result 9 1 1 True (map of_nat [100..<150]) 5]
     \<and> dl_lData (ds ! 0) = \<lparr>allocated = 100, aligned = 101, offset = 102,
                              sizes = [103], strides = [104]\<rparr>
     \<and> dl_lData (ds ! 1) = \<lparr>allocated = 110, aligned = 111, offset = 112,
                              sizes = [113], strides = [114]\<rparr>"
proof -
  let ?ops = "[GetDependent 7, AddVal 8 example_local 0, AddVal 9 example_dist 1,
                AddReady 8 0, StoreInputs] :: (nat, nat) dm_op list"
  let ?out = "map of_nat [100..<150] :: intptr_t list"
  note hist = example_batch_stored
  have cbs: "list_all (\<lambda>p. icm example_state (fst p) \<noteq> None) (ivm example_state)"
    by (simp add: example_state_def)
  from example_handleResult obtain s' where hr: "handleResult False example_state = Inr (50, s')" ..
  have len: "length ?out = 50" by simp
  from stable_order [OF hist cbs hr len]
  obtain ds rs s'' where
    1: "map Inr (func_args s') = map (\<lambda>a. arg_type (snd a)) (args s')"
      "last (body s') = ReturnOp (map snd (ivm example_state))"
      "map fst (ivm s') = map fst (ivm example_state)"
    and 2: "deliver ?out 50 s' = Inr (ds, rs, s'')" "length ds = length (ivm example_state)"
    and 3: "\<forall>i<length (ivm example_state).
                   irm s' (fst (ivm example_state ! i)) =
                     Some (value_rank (snd (ivm example_state ! i)),
                           value_dist (snd (ivm example_state ! i)))
                   \<and> (\<exists>cb. icm example_state (fst (ivm example_state ! i)) = Some cb
                        \<and> ds ! i =
                            decode_result (fst (ivm example_state ! i)) cb
                              (value_rank (snd (ivm example_state ! i)))
                              (value_dist (snd (ivm example_state ! i))) ?out
                              (sum_list (map (\<lambda>p. result_words (snd p))
                                           (take i (ivm example_state)))))"
    by blast
  have ar: "args s' = [(7, example_x)]"
    using handleResult_post(6) [OF hr] by (simp add: example_state_def)
  from 3 [rule_format, of 0] 3 [rule_format, of 1]
  have 4: "irm s' 8 = Some (1, False)" "irm s' 9 = Some (1, True)"
    "ds ! 0 = decode_result 8 0 1 False ?out 0"
    "ds ! 1 = decode_result 9 1 1 True ?out 5"
    by (simp_all add: example_state_def example_values result_words_def ptensor_sz_def
        memref_sz_def)
  from 2(2) have "length ds = 2" by (simp add: example_state_def)
  with 4(3,4) have 5: "ds = [decode_result 8 0 1 False ?out 0, decode_result 9 1 1 True ?out 5]"
    by (cases ds; cases "tl ds") auto
  have 6: "dl_lData (ds ! 0) = \<lparr>allocated = 100, aligned = 101, offset = 102,
                              sizes = [103], strides = [104]\<rparr>"
    "dl_lData (ds ! 1) = \<lparr>allocated = 110, aligned = 111, offset = 112,
                              sizes = [113], strides = [114]\<rparr>"
    using 4(3,4) by (simp_all add: decode_result_def memref_at_def memref_sz_def)
  from 1 ar have 7: "map Inr (func_args s') = [arg_type example_x]"
    "last (body s') = ReturnOp [example_local, example_dist]"
    "map fst (ivm s') = [8, 9]"
    by (simp_all add: example_state_def)
  show ?thesis
    apply (rule exI [of _ example_state])
    apply (rule exI [of _ s'])
    apply (rule exI [of _ ds])
    apply (rule exI [of _ rs])
    apply (rule exI [of _ s''])
    using hist hr 7 ar 4(1,2) 2(1) 5 6 apply (intro conjI)
    apply assumption+
    done
qed

section \<open>Signless types in the signature\<close>





section \<open>Invocation\<close>

text \<open>
  C9.  When \<open>run\<close> returns, the output vector it returns has exactly \<open>osz\<close> words and
  holds what the entry point wrote when called with the packed argument vector.  That
  vector contains the address of the output pointer if and only if \<open>osz\<close> is not zero,
  and then as its first element; the remaining elements are the addresses of the
  elements of the input vector, in order.  The input vector \<open>store_inputs\<close> builds is
  the concatenation of the descriptor words of the futures of \<open>args\<close>, in the order of
  \<open>args\<close>.
\<close>

theorem run_packs_arguments:
  assumes "run ext j module fname inp osz = (Inr out, j')"
  shows "length out = osz
       \<and> (OutPtrAddr \<in> set (pack_args osz inp) \<longleftrightarrow> osz \<noteq> 0)
       \<and> (osz \<noteq> 0 \<longrightarrow> hd (pack_args osz inp) = OutPtrAddr)
       \<and> drop (if osz \<noteq> 0 then 1 else 0) (pack_args osz inp) = map InpSlotAddr [0..<length inp]
       \<and> (\<exists>eng jittedFuncPtr.
             lookupPacked ext eng (''_mlir_ciface_'' @ fname) = Some jittedFuncPtr
             \<and> out = map (invoke ext jittedFuncPtr (pack_args osz inp) inp) [0..<osz])
       \<and> fst (store_inputs s) = concat (map (\<lambda>a. t_args (f_impl (snd a))) (args s))"
proof -
  from assms obtain eng f where
    l: "lookupPacked ext eng (''_mlir_ciface_'' @ fname) = Some f"
    and o: "out = map (invoke ext f (pack_args osz inp) inp) [0..<osz]"
    by (auto simp: run_def Let_def split: sum.splits option.splits)
  from o have "length out = osz" by simp
  moreover have "OutPtrAddr \<in> set (pack_args osz inp) \<longleftrightarrow> osz \<noteq> 0"
    by (auto simp: pack_args_def)
  moreover have "osz \<noteq> 0 \<longrightarrow> hd (pack_args osz inp) = OutPtrAddr"
    by (simp add: pack_args_def)
  moreover have "drop (if osz \<noteq> 0 then 1 else 0) (pack_args osz inp) = map InpSlotAddr [0..<length inp]"
    by (simp add: pack_args_def)
  moreover have "fst (store_inputs s) = concat (map (\<lambda>a. t_args (f_impl (snd a))) (args s))"
    by (simp add: store_inputs_eq)
  ultimately show ?thesis using l o by blast
qed

theorem run_packs_arguments_witness:
  "\<exists>out j'. run (example_ext (\<lambda>t. 0)) (JIT_new True) ''module'' ''ddpt_jit''
                (fst (store_inputs example_state)) 50 = (Inr out, j')
     \<and> length out = 50
     \<and> fst (store_inputs example_state) = [4096, 4096, 0, 3, 4, 4, 1]
     \<and> pack_args 50 (fst (store_inputs example_state)) =
         [OutPtrAddr, InpSlotAddr 0, InpSlotAddr 1, InpSlotAddr 2, InpSlotAddr 3,
          InpSlotAddr 4, InpSlotAddr 5, InpSlotAddr 6]
     \<and> pack_args 0 (fst (store_inputs example_state)) =
         [InpSlotAddr 0, InpSlotAddr 1, InpSlotAddr 2, InpSlotAddr 3,
          InpSlotAddr 4, InpSlotAddr 5, InpSlotAddr 6]"
proof -
  let ?inp = "fst (store_inputs example_state)"
  have i: "?inp = [4096, 4096, 0, 3, 4, 4, 1]"
    by (simp add: store_inputs_eq example_state_def example_x_def)
  have "\<exists>out j'. run (example_ext (\<lambda>t. 0)) (JIT_new True) ''module'' ''ddpt_jit'' ?inp 50
          = (Inr out, j')"
    by (simp add: run_def run_engine_def createExecutionEngine_def example_ext_def JIT_new_def
        Let_def)
  then obtain out j' where r: "run (example_ext (\<lambda>t. 0)) (JIT_new True) ''module'' ''ddpt_jit''
      ?inp 50 = (Inr out, j')"
    by blast
  from run_packs_arguments [OF r, of example_state]
  have "length out = 50"
    and "drop (if (50::nat) \<noteq> 0 then 1 else 0) (pack_args 50 ?inp) = map InpSlotAddr [0..<length ?inp]"
    and "hd (pack_args 50 ?inp) = OutPtrAddr"
    and "pack_args 50 ?inp \<noteq> []"
    by auto
  then have 1: "length out = 50"
    and 2: "pack_args 50 ?inp =
         [OutPtrAddr, InpSlotAddr 0, InpSlotAddr 1, InpSlotAddr 2, InpSlotAddr 3,
          InpSlotAddr 4, InpSlotAddr 5, InpSlotAddr 6]"
    by (cases "pack_args 50 ?inp"; simp add: i upt_rec)+
  have 3: "pack_args 0 ?inp =
         [InpSlotAddr 0, InpSlotAddr 1, InpSlotAddr 2, InpSlotAddr 3,
          InpSlotAddr 4, InpSlotAddr 5, InpSlotAddr 6]"
    by (simp add: pack_args_def i upt_rec)
  from r 1 i 2 3 show ?thesis by blast
qed

section \<open>Words consumed by a delivery\<close>

lemma sum_list_take_nth:
  "i \<le> length xs \<Longrightarrow> sum_list (map f (take i xs)) = (\<Sum>k<i. (f (xs ! k) :: nat))"
proof (induction i)
  case 0
  then show ?case by simp
next
  case (Suc i)
  then have "take (Suc i) xs = take i xs @ [xs ! i]"
    by (simp add: take_Suc_conv_app_nth)
  with Suc show ?case by simp
qed

text \<open>
  C2.  Let the \<open>i\<close>-th result of \<open>ivm\<close> have the callback \<open>cb i\<close> and the pair
  \<open>(R i, d i)\<close> in \<open>irm\<close>, and let the output vector hold the words of all results.  Then
  \<open>deliver\<close> succeeds, fires one delivery per result in the order of \<open>ivm\<close>, and decodes
  the \<open>i\<close>-th result from the words that start where the words of the results before it
  end: each result consumes exactly \<open>ptensor_sz (R i) (d i)\<close> words before \<open>deliver\<close>
  moves to the next one.  These are \<open>3 + 2R\<close> words, read as one descriptor
  \<open>allocated, aligned, offset, sizes[R], strides[R]\<close>, for a local or 0-rank result;
  three such descriptors (left halo, local data, right halo) and a rank-1 descriptor of
  the local offsets, \<open>3 * (3 + 2R) + 5\<close> words, for a distributed result of rank
  above 0.
\<close>

theorem deliver_consumes_ptensor_words:
  assumes "\<forall>i<length (ivm s). icm s (fst (ivm s ! i)) = Some (cb i)
               \<and> irm s (fst (ivm s ! i)) = Some (R i, d i)"
    and "(\<Sum>i<length (ivm s). ptensor_sz (R i) (d i)) \<le> length outputV"
  shows "(\<exists>ds. deliver outputV sz s = Inr (ds, ready_signals (icr s), s)
            \<and> length ds = length (ivm s)
            \<and> (\<forall>i<length (ivm s).
                  ds ! i = decode_result (fst (ivm s ! i)) (cb i) (R i) (d i) outputV
                             (\<Sum>k<i. ptensor_sz (R k) (d k))))
         \<and> (\<Sum>k<Suc n. ptensor_sz (R k) (d k)) = (\<Sum>k<n. ptensor_sz (R k) (d k)) + ptensor_sz (R n) (d n)
         \<and> memref_sz r = 3 + 2 * r
         \<and> ptensor_sz r b = (if b \<and> 0 < r then 3 * (3 + 2 * r) + (3 + 2 * 1) else 3 + 2 * r)
         \<and> decode_result guid c r b outputV pos =
             (if b \<and> 0 < r then
                \<lparr>dl_guid = guid, dl_cb = c, dl_rank = r,
                 dl_lhsHalo = Some (memref_at r outputV pos),
                 dl_lData = memref_at r outputV (pos + (3 + 2 * r)),
                 dl_rhsHalo = Some (memref_at r outputV (pos + 2 * (3 + 2 * r))),
                 dl_lo = Some (outputV ! (pos + 3 * (3 + 2 * r)),
                               outputV ! (pos + 3 * (3 + 2 * r) + 1)
                                 + 8 * outputV ! (pos + 3 * (3 + 2 * r) + 2))\<rparr>
              else
                \<lparr>dl_guid = guid, dl_cb = c, dl_rank = r,
                 dl_lhsHalo = None, dl_lData = memref_at r outputV pos,
                 dl_rhsHalo = None, dl_lo = None\<rparr>)
         \<and> memref_at r outputV pos =
             \<lparr>allocated = outputV ! pos, aligned = outputV ! (pos + 1),
              offset = outputV ! (pos + 2),
              sizes = map (\<lambda>i. outputV ! (pos + 3 + i)) [0..<r],
              strides = map (\<lambda>i. outputV ! (pos + 3 + r + i)) [0..<r]\<rparr>"
proof -
  let ?es = "ivm s"
  let ?W = "\<lambda>p. ptensor_sz (fst (the (irm s (fst p)))) (snd (the (irm s (fst p))))"
  from assms(1) have at: "icm s (fst (?es ! i)) = Some (cb i)" "irm s (fst (?es ! i)) = Some (R i, d i)"
    if "i < length ?es" for i
    using that by simp_all
  have all: "list_all (\<lambda>p. icm s (fst p) \<noteq> None \<and> irm s (fst p) \<noteq> None) ?es"
    unfolding list_all_length using at by simp
  have w: "?W (?es ! i) = ptensor_sz (R i) (d i)" if "i < length ?es" for i
    using at(2) [OF that] by simp
  have sums: "sum_list (map ?W (take i ?es)) = (\<Sum>k<i. ptensor_sz (R k) (d k))"
    if "i \<le> length ?es" for i
  proof -
    have "sum_list (map ?W (take i ?es)) = (\<Sum>k<i. ?W (?es ! k))"
      by (rule sum_list_take_nth [OF that])
    also have "\<dots> = (\<Sum>k<i. ptensor_sz (R k) (d k))"
      using that by (intro sum.cong refl w) simp
    finally show ?thesis .
  qed
  from sums [of "length ?es"] assms(2)
  have len: "0 + sum_list (map ?W ?es) \<le> length outputV"
    by simp
  from deliver_loop_nth [where cm = "icm s" and rm = "irm s", OF all len]
  obtain ds where
    dl: "deliver_loop ?es 0 outputV (icm s) (irm s) = Inr (ds, 0 + sum_list (map ?W ?es), irm s)"
    and l: "length ds = length ?es"
    and n: "\<forall>i<length ?es.
              ds ! i = decode_result (fst (?es ! i)) (the (icm s (fst (?es ! i))))
                         (fst (the (irm s (fst (?es ! i))))) (snd (the (irm s (fst (?es ! i)))))
                         outputV (0 + sum_list (map ?W (take i ?es)))"
    by blast
  have 1: "deliver outputV sz s = Inr (ds, ready_signals (icr s), s)"
    unfolding deliver_def dl by simp
  have 2: "\<forall>i<length ?es.
             ds ! i = decode_result (fst (?es ! i)) (cb i) (R i) (d i) outputV
                        (\<Sum>k<i. ptensor_sz (R k) (d k))"
  proof (intro allI impI)
    fix i
    assume i: "i < length ?es"
    with n have "ds ! i = decode_result (fst (?es ! i)) (the (icm s (fst (?es ! i))))
                         (fst (the (irm s (fst (?es ! i))))) (snd (the (irm s (fst (?es ! i)))))
                         outputV (0 + sum_list (map ?W (take i ?es)))"
      by blast
    with at [OF i] sums [of i] i
    show "ds ! i = decode_result (fst (?es ! i)) (cb i) (R i) (d i) outputV
                        (\<Sum>k<i. ptensor_sz (R k) (d k))"
      by simp
  qed
  from 1 l 2 have A: "\<exists>ds. deliver outputV sz s = Inr (ds, ready_signals (icr s), s)
            \<and> length ds = length (ivm s)
            \<and> (\<forall>i<length (ivm s).
                  ds ! i = decode_result (fst (ivm s ! i)) (cb i) (R i) (d i) outputV
                             (\<Sum>k<i. ptensor_sz (R k) (d k)))"
    by blast
  show ?thesis
    apply (intro conjI)
         apply (rule A)
        apply simp
       apply (simp add: memref_sz_def)
      apply (simp add: ptensor_sz_def memref_sz_def)
     apply (simp add: decode_result_def memref_sz_def)
    apply (simp add: memref_at_def)
    done
qed

theorem deliver_consumes_ptensor_words_witness:
  "deliver [4096, 4096, 0, 10, 1,
            8192, 8192, 0, 2, 1,  12288, 12288, 0, 8, 1,  16384, 16384, 0, 2, 1,
            20480, 20480, 3, 1, 1] 25 example_finalised =
     Inr ([\<lparr>dl_guid = 8, dl_cb = 0, dl_rank = 1, dl_lhsHalo = None,
            dl_lData = \<lparr>allocated = 4096, aligned = 4096, offset = 0,
                        sizes = [10], strides = [1]\<rparr>,
            dl_rhsHalo = None, dl_lo = None\<rparr>,
           \<lparr>dl_guid = 9, dl_cb = 1, dl_rank = 1,
            dl_lhsHalo = Some \<lparr>allocated = 8192, aligned = 8192, offset = 0,
                               sizes = [2], strides = [1]\<rparr>,
            dl_lData = \<lparr>allocated = 12288, aligned = 12288, offset = 0,
                        sizes = [8], strides = [1]\<rparr>,
            dl_rhsHalo = Some \<lparr>allocated = 16384, aligned = 16384, offset = 0,
                               sizes = [2], strides = [1]\<rparr>,
            dl_lo = Some (20480, 20504)\<rparr>],
          [(0, 8)], example_finalised)"
proof -
  let ?o = "[4096, 4096, 0, 10, 1,
            8192, 8192, 0, 2, 1,  12288, 12288, 0, 8, 1,  16384, 16384, 0, 2, 1,
            20480, 20480, 3, 1, 1] :: intptr_t list"
  let ?cb = "\<lambda>i :: nat. i"
  let ?R = "\<lambda>i :: nat. 1 :: nat"
  let ?d = "\<lambda>i :: nat. i = 1"
  have iv: "ivm example_finalised = [(8, NullValue), (9, NullValue)]"
    and ic: "icm example_finalised = [8 \<mapsto> 0, 9 \<mapsto> 1]"
    and ir: "irm example_finalised = [8 \<mapsto> (1, False), 9 \<mapsto> (1, True)]"
    and cr: "icr example_finalised = [(8, [0])]"
    by (simp_all add: example_finalised_def example_state_def)
  have a: "\<forall>i<length (ivm example_finalised).
             icm example_finalised (fst (ivm example_finalised ! i)) = Some (?cb i)
             \<and> irm example_finalised (fst (ivm example_finalised ! i)) = Some (?R i, ?d i)"
    by (simp add: iv ic ir All_less_Suc numeral_2_eq_2)
  have b: "(\<Sum>i<length (ivm example_finalised). ptensor_sz (?R i) (?d i)) \<le> length ?o"
    by (simp add: iv ptensor_sz_def memref_sz_def numeral_2_eq_2)
  from deliver_consumes_ptensor_words [of example_finalised ?cb ?R ?d ?o 25, OF a b, THEN conjunct1]
  obtain ds where
    dl: "deliver ?o 25 example_finalised = Inr (ds, ready_signals (icr example_finalised), example_finalised)"
    and l: "length ds = length (ivm example_finalised)"
    and n: "\<forall>i<length (ivm example_finalised).
              ds ! i = decode_result (fst (ivm example_finalised ! i)) (?cb i) (?R i) (?d i) ?o
                         (\<Sum>k<i. ptensor_sz (?R k) (?d k))"
    by blast
  from l have l2: "length ds = 2" by (simp add: iv)
  from n have n0: "ds ! 0 = decode_result 8 0 1 False ?o 0"
    by (simp add: iv All_less_Suc numeral_2_eq_2)
  from n have n1: "ds ! 1 = decode_result 9 1 1 True ?o 5"
    by (simp add: iv All_less_Suc numeral_2_eq_2 ptensor_sz_def memref_sz_def)
  from l2 have "ds = [ds ! 0, ds ! 1]"
    by (cases ds; cases "tl ds"; simp)
  with n0 n1 have ds: "ds = [decode_result 8 0 1 False ?o 0, decode_result 9 1 1 True ?o 5]"
    by simp
  show ?thesis
    unfolding dl ds
    by (simp add: cr ready_signals_def decode_result_def memref_at_def memref_sz_def)
qed

section \<open>The engine cache\<close>

lemma run_hit:
  assumes "useCache j" and "engineCache j (cache_key ext m) = Some eng"
  shows "run ext j m fname inp osz = (invoke_packed ext eng fname inp osz, j)"
  using assms
  by (simp add: run_def run_engine_def cache_key_def hashed_text_def invoke_packed_def Let_def
      split: option.splits)

lemma run_miss:
  assumes "useCache j" and "engineCache j (cache_key ext m) = None"
  shows "run ext j m fname inp osz =
           (case pm_run ext (if has_itac ext then add_itac_decls ext m else m) of
              None \<Rightarrow> (Inl PassFailure, j)
            | Some lowered \<Rightarrow>
                if \<not> ee_create ext lowered then (Inl CompileFailure, j)
                else (invoke_packed ext \<lparr>ee_id = engines_created j, ee_module = lowered\<rparr>
                        fname inp osz,
                      j\<lparr>engines_created := Suc (engines_created j),
                        engineCache := (engineCache j)(cache_key ext m \<mapsto>
                          \<lparr>ee_id = engines_created j, ee_module = lowered\<rparr>)\<rparr>))"
  using assms
  by (simp add: run_def run_engine_def createExecutionEngine_def cache_key_def hashed_text_def
      invoke_packed_def Let_def split: option.splits)

lemma cache_inv_insert:
  assumes inv: "cache_inv j" and none: "engineCache j k = None"
  shows "cache_inv (j\<lparr>engines_created := Suc (engines_created j),
                      engineCache := (engineCache j)(k \<mapsto>
                        \<lparr>ee_id = engines_created j, ee_module = lowered\<rparr>)\<rparr>)"
proof -
  let ?e = "\<lparr>ee_id = engines_created j, ee_module = lowered\<rparr>"
  from inv have uc: "useCache j" and fin: "finite (dom (engineCache j))"
    and cd: "card (dom (engineCache j)) = engines_created j"
    and fresh: "\<And>k e. engineCache j k = Some e \<Longrightarrow> ee_id e < engines_created j"
    and inj: "\<And>k k' e e'. engineCache j k = Some e \<Longrightarrow> engineCache j k' = Some e'
                \<Longrightarrow> ee_id e = ee_id e' \<Longrightarrow> k = k'"
    unfolding cache_inv_def by blast+
  from none have nd: "k \<notin> dom (engineCache j)" by (simp add: domIff)
  have c: "card (insert k (dom (engineCache j))) = Suc (engines_created j)"
    using fin nd cd by simp
  have f: "ee_id e < Suc (engines_created j)"
    if "((engineCache j)(k \<mapsto> ?e)) k0 = Some e" for k0 e
    using that fresh [of k0 e] by (cases "k0 = k") (auto simp: less_Suc_eq)
  have i: "k1 = k2"
    if h: "((engineCache j)(k \<mapsto> ?e)) k1 = Some e1" "((engineCache j)(k \<mapsto> ?e)) k2 = Some e2"
      "ee_id e1 = ee_id e2" for k1 k2 e1 e2
  proof (cases "k1 = k")
    case True
    show ?thesis
    proof (cases "k2 = k")
      case T: True
      with True show ?thesis by simp
    next
      case False
      with h True have "e1 = ?e" "engineCache j k2 = Some e2" by simp_all
      with fresh [of k2 e2] h(3) show ?thesis by simp
    qed
  next
    case False
    show ?thesis
    proof (cases "k2 = k")
      case True
      with h False have "e2 = ?e" "engineCache j k1 = Some e1" by simp_all
      with fresh [of k1 e1] h(3) show ?thesis by simp
    next
      case F: False
      with h False have "engineCache j k1 = Some e1" "engineCache j k2 = Some e2" by simp_all
      with h(3) show ?thesis using inj [of k1 e1 k2 e2] by simp
    qed
  qed
  show ?thesis
    unfolding cache_inv_def
  proof (intro conjI allI impI, goal_cases)
    case 1
    show ?case by (simp add: uc)
  next
    case 2
    show ?case by (simp add: fin)
  next
    case 3
    show ?case by (simp add: c)
  next
    case (4 k0 e)
    then show ?case using f [of k0 e] by simp
  next
    case (5 k1 k2 e1 e2)
    then show ?case using i [of k1 e1 k2 e2] by simp
  qed
qed

lemma run_inv:
  assumes inv: "cache_inv j" and r: "run ext j m fname inp osz = (r, j')"
  shows "cache_inv j'"
    and "\<And>k e. engineCache j k = Some e \<Longrightarrow> engineCache j' k = Some e"
    and "\<not> engine_failed r \<Longrightarrow>
           \<exists>eng. engineCache j' (cache_key ext m) = Some eng
                 \<and> r = invoke_packed ext eng fname inp osz"
proof -
  from inv have uc: "useCache j" by (simp add: cache_inv_def)
  have "cache_inv j'
      \<and> (\<forall>k e. engineCache j k = Some e \<longrightarrow> engineCache j' k = Some e)
      \<and> (\<not> engine_failed r \<longrightarrow>
           (\<exists>eng. engineCache j' (cache_key ext m) = Some eng
                 \<and> r = invoke_packed ext eng fname inp osz))"
  proof (cases "engineCache j (cache_key ext m)")
    case (Some eng)
    from r have "r = invoke_packed ext eng fname inp osz" "j' = j"
      unfolding run_hit [OF uc Some] by simp_all
    with inv Some show ?thesis by simp
  next
    case None
    note ms = run_miss [OF uc None, of fname inp osz]
    show ?thesis
    proof (cases "pm_run ext (if has_itac ext then add_itac_decls ext m else m)")
      case N: None
      from r have "r = Inl PassFailure" "j' = j"
        unfolding ms N by simp_all
      with inv show ?thesis by (simp add: engine_failed_def)
    next
      case (Some lowered)
      show ?thesis
      proof (cases "ee_create ext lowered")
        case False
        from r have "r = Inl CompileFailure" "j' = j"
          unfolding ms Some using False by simp_all
        with inv show ?thesis by (simp add: engine_failed_def)
      next
        case True
        let ?e = "\<lparr>ee_id = engines_created j, ee_module = lowered\<rparr>"
        from r have rr: "r = invoke_packed ext ?e fname inp osz"
          and jj: "j' = j\<lparr>engines_created := Suc (engines_created j),
                        engineCache := (engineCache j)(cache_key ext m \<mapsto> ?e)\<rparr>"
          unfolding ms Some using True by simp_all
        have 1: "cache_inv j'"
          unfolding jj by (rule cache_inv_insert [OF inv None])
        have 2: "\<forall>k e. engineCache j k = Some e \<longrightarrow> engineCache j' k = Some e"
          using None by (auto simp: jj)
        have 3: "engineCache j' (cache_key ext m) = Some ?e"
          by (simp add: jj)
        from 1 2 3 rr show ?thesis by blast
      qed
    qed
  qed
  then show "cache_inv j'"
    and "\<And>k e. engineCache j k = Some e \<Longrightarrow> engineCache j' k = Some e"
    and "\<not> engine_failed r \<Longrightarrow>
           \<exists>eng. engineCache j' (cache_key ext m) = Some eng
                 \<and> r = invoke_packed ext eng fname inp osz"
    by blast+
qed

lemma runs_inv:
  assumes "cache_inv j0" and "runs ext j0 cs = (rs, j)"
  shows "cache_inv j
       \<and> (\<forall>k e. engineCache j0 k = Some e \<longrightarrow> engineCache j k = Some e)
       \<and> length rs = length cs
       \<and> (\<forall>i<length cs. \<not> engine_failed (rs ! i) \<longrightarrow>
            (\<exists>eng. engineCache j (cache_key ext (c_module (cs ! i))) = Some eng
                   \<and> rs ! i = invoke_packed ext eng (c_fname (cs ! i)) (c_inp (cs ! i))
                                (c_osz (cs ! i))))"
  using assms
proof (induction cs arbitrary: j0 rs j)
  case Nil
  then show ?case by simp
next
  case (Cons c cs)
  obtain r j1 where r: "run ext j0 (c_module c) (c_fname c) (c_inp c) (c_osz c) = (r, j1)"
    by (cases "run ext j0 (c_module c) (c_fname c) (c_inp c) (c_osz c)")
  obtain rs1 j2 where rs1: "runs ext j1 cs = (rs1, j2)"
    by (cases "runs ext j1 cs")
  from Cons.prems(2) r rs1 have e: "rs = r # rs1" "j = j2"
    by simp_all
  note st = run_inv [OF Cons.prems(1) r]
  from Cons.IH [OF st(1) rs1]
  have inv: "cache_inv j2"
    and mono: "\<forall>k e. engineCache j1 k = Some e \<longrightarrow> engineCache j2 k = Some e"
    and len: "length rs1 = length cs"
    and rest: "\<forall>i<length cs. \<not> engine_failed (rs1 ! i) \<longrightarrow>
            (\<exists>eng. engineCache j2 (cache_key ext (c_module (cs ! i))) = Some eng
                   \<and> rs1 ! i = invoke_packed ext eng (c_fname (cs ! i)) (c_inp (cs ! i))
                                (c_osz (cs ! i)))"
    by blast+
  have m: "\<forall>k e. engineCache j0 k = Some e \<longrightarrow> engineCache j2 k = Some e"
    using st(2) mono by blast
  have nth: "\<forall>i<length (c # cs). \<not> engine_failed ((r # rs1) ! i) \<longrightarrow>
            (\<exists>eng. engineCache j2 (cache_key ext (c_module ((c # cs) ! i))) = Some eng
                   \<and> (r # rs1) ! i = invoke_packed ext eng (c_fname ((c # cs) ! i))
                        (c_inp ((c # cs) ! i)) (c_osz ((c # cs) ! i)))"
  proof (intro allI impI)
    fix i
    assume i: "i < length (c # cs)" and nf: "\<not> engine_failed ((r # rs1) ! i)"
    show "\<exists>eng. engineCache j2 (cache_key ext (c_module ((c # cs) ! i))) = Some eng
                   \<and> (r # rs1) ! i = invoke_packed ext eng (c_fname ((c # cs) ! i))
                        (c_inp ((c # cs) ! i)) (c_osz ((c # cs) ! i))"
    proof (cases i)
      case 0
      with nf have "\<not> engine_failed r" by simp
      from st(3) [OF this] obtain eng where
        "engineCache j1 (cache_key ext (c_module c)) = Some eng"
        "r = invoke_packed ext eng (c_fname c) (c_inp c) (c_osz c)"
        by blast
      with mono 0 show ?thesis by auto
    next
      case (Suc n)
      with i nf have "n < length cs" "\<not> engine_failed (rs1 ! n)" by simp_all
      with rest Suc show ?thesis by simp
    qed
  qed
  from inv m len nth show ?case
    unfolding e by simp
qed

lemma cache_inv_new: "cache_inv (JIT_new True)"
  by (simp add: cache_inv_def JIT_new_def)

text \<open>
  C5.  With the cache in use, the key of a module is the digest of its text as \<open>run\<close>
  prints it before the pipeline lowers it.  If the key is present, \<open>run\<close> calls the
  engine stored under it and leaves the engine state as it is: no engine is
  constructed.  Otherwise it runs the pipeline and constructs a new engine, which it
  stores under the key before it looks up the entry point; a construction that fails
  stores nothing.  No call removes or replaces an entry.  Hence, after any sequence of
  calls in a process, every call for which an engine could be constructed was served by
  the engine the cache holds under its key, the cache holds exactly one engine for each
  engine constructed, two calls whose modules have the same text share one engine, and,
  the digest being free of collisions on the texts of the calls, two calls whose
  modules differ in their text have different engines.
\<close>

theorem engine_cache:
  assumes uc: "useCache j0"
    and rn: "runs ext (JIT_new True) cs = (rs, j)"
    and sha: "inj_on (sha1 ext) (hashed_text ext ` c_module ` set cs)"
  shows "cache_key ext m =
           sha1 ext (print_module ext (if has_itac ext then add_itac_decls ext m else m))
       \<and> (engineCache j0 (cache_key ext m) = Some eng \<longrightarrow>
           run ext j0 m fname inp osz = (invoke_packed ext eng fname inp osz, j0))
       \<and> (engineCache j0 (cache_key ext m) = None \<longrightarrow>
           run ext j0 m fname inp osz =
             (case pm_run ext (if has_itac ext then add_itac_decls ext m else m) of
                None \<Rightarrow> (Inl PassFailure, j0)
              | Some lowered \<Rightarrow>
                  if \<not> ee_create ext lowered then (Inl CompileFailure, j0)
                  else (invoke_packed ext \<lparr>ee_id = engines_created j0, ee_module = lowered\<rparr>
                          fname inp osz,
                        j0\<lparr>engines_created := Suc (engines_created j0),
                           engineCache := (engineCache j0)(cache_key ext m \<mapsto>
                             \<lparr>ee_id = engines_created j0, ee_module = lowered\<rparr>)\<rparr>)))
       \<and> (\<forall>k e. engineCache j0 k = Some e \<longrightarrow>
           engineCache (snd (run ext j0 m fname inp osz)) k = Some e)
       \<and> length rs = length cs
       \<and> (\<forall>i<length cs. \<not> engine_failed (rs ! i) \<longrightarrow>
           (\<exists>e. engineCache j (cache_key ext (c_module (cs ! i))) = Some e
                \<and> rs ! i = invoke_packed ext e (c_fname (cs ! i)) (c_inp (cs ! i))
                             (c_osz (cs ! i))))
       \<and> finite (dom (engineCache j)) \<and> card (dom (engineCache j)) = engines_created j
       \<and> (\<forall>i<length cs. \<forall>i'<length cs. \<forall>e e'.
           engineCache j (cache_key ext (c_module (cs ! i))) = Some e
           \<and> engineCache j (cache_key ext (c_module (cs ! i'))) = Some e' \<longrightarrow>
           (hashed_text ext (c_module (cs ! i)) = hashed_text ext (c_module (cs ! i'))
              \<longrightarrow> e = e')
           \<and> (hashed_text ext (c_module (cs ! i)) \<noteq> hashed_text ext (c_module (cs ! i'))
              \<longrightarrow> ee_id e \<noteq> ee_id e'))"
proof -
  have 1: "cache_key ext m =
           sha1 ext (print_module ext (if has_itac ext then add_itac_decls ext m else m))"
    by (simp add: cache_key_def hashed_text_def)
  have 2: "engineCache j0 (cache_key ext m) = Some eng \<longrightarrow>
           run ext j0 m fname inp osz = (invoke_packed ext eng fname inp osz, j0)"
    using run_hit [OF uc] by blast
  have 3: "engineCache j0 (cache_key ext m) = None \<longrightarrow>
           run ext j0 m fname inp osz =
             (case pm_run ext (if has_itac ext then add_itac_decls ext m else m) of
                None \<Rightarrow> (Inl PassFailure, j0)
              | Some lowered \<Rightarrow>
                  if \<not> ee_create ext lowered then (Inl CompileFailure, j0)
                  else (invoke_packed ext \<lparr>ee_id = engines_created j0, ee_module = lowered\<rparr>
                          fname inp osz,
                        j0\<lparr>engines_created := Suc (engines_created j0),
                           engineCache := (engineCache j0)(cache_key ext m \<mapsto>
                             \<lparr>ee_id = engines_created j0, ee_module = lowered\<rparr>)\<rparr>))"
    using run_miss [OF uc] by blast
  have 4: "\<forall>k e. engineCache j0 k = Some e \<longrightarrow>
           engineCache (snd (run ext j0 m fname inp osz)) k = Some e"
  proof (cases "engineCache j0 (cache_key ext m)")
    case None
    then show ?thesis
      unfolding run_miss [OF uc None] by (auto split: option.splits)
  next
    case (Some a)
    show ?thesis
      unfolding run_hit [OF uc Some] by simp
  qed
  note ri = runs_inv [OF cache_inv_new rn]
  from ri have 5: "length rs = length cs" by blast
  from ri have 6: "\<forall>i<length cs. \<not> engine_failed (rs ! i) \<longrightarrow>
           (\<exists>e. engineCache j (cache_key ext (c_module (cs ! i))) = Some e
                \<and> rs ! i = invoke_packed ext e (c_fname (cs ! i)) (c_inp (cs ! i))
                             (c_osz (cs ! i)))"
    by blast
  from ri have inv: "cache_inv j" by blast
  then have 7: "finite (dom (engineCache j))" "card (dom (engineCache j)) = engines_created j"
    by (simp_all add: cache_inv_def)
  from inv have inj: "\<And>k k' e e'. engineCache j k = Some e \<Longrightarrow> engineCache j k' = Some e'
                \<Longrightarrow> ee_id e = ee_id e' \<Longrightarrow> k = k'"
    unfolding cache_inv_def by blast
  have 8: "\<forall>i<length cs. \<forall>i'<length cs. \<forall>e e'.
           engineCache j (cache_key ext (c_module (cs ! i))) = Some e
           \<and> engineCache j (cache_key ext (c_module (cs ! i'))) = Some e' \<longrightarrow>
           (hashed_text ext (c_module (cs ! i)) = hashed_text ext (c_module (cs ! i'))
              \<longrightarrow> e = e')
           \<and> (hashed_text ext (c_module (cs ! i)) \<noteq> hashed_text ext (c_module (cs ! i'))
              \<longrightarrow> ee_id e \<noteq> ee_id e')"
  proof (intro allI impI conjI)
    fix i i' e e'
    assume i: "i < length cs" and i': "i' < length cs"
      and hh: "engineCache j (cache_key ext (c_module (cs ! i))) = Some e
           \<and> engineCache j (cache_key ext (c_module (cs ! i'))) = Some e'"
    from hh have h: "engineCache j (cache_key ext (c_module (cs ! i))) = Some e"
      "engineCache j (cache_key ext (c_module (cs ! i'))) = Some e'"
      by simp_all
    {
      assume "hashed_text ext (c_module (cs ! i)) = hashed_text ext (c_module (cs ! i'))"
      then have "cache_key ext (c_module (cs ! i)) = cache_key ext (c_module (cs ! i'))"
        by (simp add: cache_key_def)
      with h show "e = e'" by simp
    }
    {
      assume ne: "hashed_text ext (c_module (cs ! i)) \<noteq> hashed_text ext (c_module (cs ! i'))"
      have "hashed_text ext (c_module (cs ! i)) \<in> hashed_text ext ` c_module ` set cs"
        "hashed_text ext (c_module (cs ! i')) \<in> hashed_text ext ` c_module ` set cs"
        using i i' by simp_all
      with sha ne have "cache_key ext (c_module (cs ! i)) \<noteq> cache_key ext (c_module (cs ! i'))"
        unfolding cache_key_def by (auto dest: inj_onD)
      with inj [OF h] show "ee_id e \<noteq> ee_id e'" by blast
    }
  qed
  show ?thesis
    apply (intro conjI)
           apply (rule 1)
          apply (rule 2)
         apply (rule 3)
        apply (rule 4)
       apply (rule 5)
      apply (rule 6)
     apply (rule 7)
     apply (rule 7)
    apply (rule 8)
    done
qed

lemma example_runs:
  "runs (example_ext example_digest) (JIT_new True) example_calls =
     ([Inr [0, 1], Inr [0, 1], Inr [0, 1], Inl LookupFailure], example_cache)"
  by (simp add: example_calls_def example_cache_def example_ext_def example_digest_def
      JIT_new_def run_def run_engine_def createExecutionEngine_def pack_args_def Let_def upt_rec
      numeral_2_eq_2)

theorem engine_cache_witness:
  "runs (example_ext example_digest) (JIT_new True) example_calls =
     ([Inr [0, 1], Inr [0, 1], Inr [0, 1], Inl LookupFailure], example_cache)
   \<and> inj_on (sha1 (example_ext example_digest))
        (hashed_text (example_ext example_digest) ` c_module ` set example_calls)
   \<and> cache_key (example_ext example_digest) ''a'' = 1
   \<and> cache_key (example_ext example_digest) ''cc'' = 2
   \<and> cache_key (example_ext example_digest) ''ddd'' = 3
   \<and> cache_key (example_ext example_digest) ''eeee'' = 4
   \<and> engineCache example_cache 1 = Some \<lparr>ee_id = 0, ee_module = ''lowered: a''\<rparr>
   \<and> engineCache example_cache 2 = Some \<lparr>ee_id = 1, ee_module = ''lowered: cc''\<rparr>
   \<and> engineCache example_cache 3 = Some \<lparr>ee_id = 2, ee_module = ''lowered: ddd''\<rparr>
   \<and> engineCache example_cache 4 = None
   \<and> run (example_ext example_digest) example_cache ''a'' ''ddpt_jit'' [] 2 =
        (Inr [0, 1], example_cache)
   \<and> run (example_ext example_digest) example_cache ''eeee'' ''ddpt_jit'' [] 2 =
        (Inr [0, 1],
         example_cache\<lparr>engines_created := 4,
           engineCache := (engineCache example_cache)
             (4 \<mapsto> \<lparr>ee_id = 3, ee_module = ''lowered: eeee''\<rparr>)\<rparr>)
   \<and> engineCache (snd (run (example_ext example_digest) example_cache ''eeee'' ''ddpt_jit'' [] 2)) 1
        = Some \<lparr>ee_id = 0, ee_module = ''lowered: a''\<rparr>
   \<and> \<not> engine_failed (Inl LookupFailure)
   \<and> invoke_packed (example_ext example_digest) \<lparr>ee_id = 2, ee_module = ''lowered: ddd''\<rparr>
        ''other'' [] 2 = Inl LookupFailure
   \<and> card (dom (engineCache example_cache)) = 3
   \<and> the (engineCache example_cache (cache_key (example_ext example_digest) ''a''))
        = the (engineCache example_cache
                (cache_key (example_ext example_digest) (c_module (example_calls ! 1))))
   \<and> ee_id (the (engineCache example_cache (cache_key (example_ext example_digest) ''a'')))
        \<noteq> ee_id (the (engineCache example_cache (cache_key (example_ext example_digest) ''cc'')))"
proof -
  let ?ext = "example_ext example_digest"
  let ?e0 = "\<lparr>ee_id = 0, ee_module = ''lowered: a''\<rparr>"
  let ?e1 = "\<lparr>ee_id = 1, ee_module = ''lowered: cc''\<rparr>"
  let ?e2 = "\<lparr>ee_id = 2, ee_module = ''lowered: ddd''\<rparr>"
  have uc: "useCache example_cache"
    by (simp add: example_cache_def)
  have sha: "inj_on (sha1 ?ext) (hashed_text ?ext ` c_module ` set example_calls)"
    by (simp add: example_calls_def example_ext_def example_digest_def hashed_text_def)
  have k: "cache_key ?ext ''a'' = 1" "cache_key ?ext ''cc'' = 2" "cache_key ?ext ''ddd'' = 3"
    "cache_key ?ext ''eeee'' = 4"
    by (simp_all add: cache_key_def hashed_text_def example_ext_def example_digest_def)
  have c: "engineCache example_cache 1 = Some ?e0" "engineCache example_cache 2 = Some ?e1"
    "engineCache example_cache 3 = Some ?e2" "engineCache example_cache 4 = None"
    by (simp_all add: example_cache_def)
  have m: "c_module (example_calls ! 0) = ''a''" "c_module (example_calls ! 1) = ''a''"
    "c_module (example_calls ! 2) = ''cc''" "c_module (example_calls ! 3) = ''ddd''"
    "c_fname (example_calls ! 3) = ''other''" "c_inp (example_calls ! 3) = []"
    "c_osz (example_calls ! 3) = 2"
    "length example_calls = 4"
    "hashed_text ?ext ''a'' \<noteq> hashed_text ?ext ''cc''"
    by (simp_all add: example_calls_def hashed_text_def example_ext_def)
  have ec: "engines_created example_cache = 3"
    by (simp add: example_cache_def)
  have pm: "pm_run ?ext (if has_itac ?ext then add_itac_decls ?ext ''eeee'' else ''eeee'')
      = Some ''lowered: eeee''" "ee_create ?ext ''lowered: eeee''"
    by (simp_all add: example_ext_def)
  have ip: "invoke_packed ?ext e ''ddpt_jit'' [] 2 = Inr [0, 1]"
    "invoke_packed ?ext e ''other'' [] 2 = Inl LookupFailure" for e
    by (simp_all add: invoke_packed_def example_ext_def upt_rec numeral_2_eq_2)
  note t = engine_cache [OF uc example_runs sha, of "''a''" ?e0 "''ddpt_jit''" "[]" 2]
  note u = engine_cache [OF uc example_runs sha, of "''eeee''" ?e0 "''ddpt_jit''" "[]" 2]
  from t have "engineCache example_cache (cache_key ?ext ''a'') = Some ?e0 \<longrightarrow>
      run ?ext example_cache ''a'' ''ddpt_jit'' [] 2 =
        (invoke_packed ?ext ?e0 ''ddpt_jit'' [] 2, example_cache)"
    by blast
  then have hit: "run ?ext example_cache ''a'' ''ddpt_jit'' [] 2 = (Inr [0, 1], example_cache)"
    by (simp add: k c ip)
  from u [THEN conjunct2, THEN conjunct2, THEN conjunct1]
  have miss: "run ?ext example_cache ''eeee'' ''ddpt_jit'' [] 2 =
        (Inr [0, 1],
         example_cache\<lparr>engines_created := 4,
           engineCache := (engineCache example_cache)
             (4 \<mapsto> \<lparr>ee_id = 3, ee_module = ''lowered: eeee''\<rparr>)\<rparr>)"
    unfolding pm k by (simp add: c ec ip pm)
  from u [THEN conjunct2, THEN conjunct2, THEN conjunct2, THEN conjunct1, rule_format, of 1 ?e0]
  have keep: "engineCache (snd (run ?ext example_cache ''eeee'' ''ddpt_jit'' [] 2)) 1 = Some ?e0"
    by (simp add: c)
  from t have "\<forall>i<length example_calls.
           \<not> engine_failed ([Inr [0, 1], Inr [0, 1], Inr [0, 1], Inl LookupFailure] ! i) \<longrightarrow>
           (\<exists>e. engineCache example_cache (cache_key ?ext (c_module (example_calls ! i))) = Some e
                \<and> [Inr [0, 1], Inr [0, 1], Inr [0, 1], Inl LookupFailure] ! i =
                    invoke_packed ?ext e (c_fname (example_calls ! i)) (c_inp (example_calls ! i))
                             (c_osz (example_calls ! i)))"
    by blast
  from this [rule_format, of 3]
  have served: "\<not> engine_failed (Inl LookupFailure)"
    "invoke_packed ?ext ?e2 ''other'' [] 2 = Inl LookupFailure"
    by (simp_all add: m k c engine_failed_def ip)
  from t have cd: "card (dom (engineCache example_cache)) = engines_created example_cache"
    by blast
  then have cd3: "card (dom (engineCache example_cache)) = 3"
    by (simp add: ec)
  from t have pairs: "\<forall>i<length example_calls. \<forall>i'<length example_calls. \<forall>e e'.
           engineCache example_cache (cache_key ?ext (c_module (example_calls ! i))) = Some e
           \<and> engineCache example_cache (cache_key ?ext (c_module (example_calls ! i'))) = Some e' \<longrightarrow>
           (hashed_text ?ext (c_module (example_calls ! i)) = hashed_text ?ext (c_module (example_calls ! i'))
              \<longrightarrow> e = e')
           \<and> (hashed_text ?ext (c_module (example_calls ! i)) \<noteq> hashed_text ?ext (c_module (example_calls ! i'))
              \<longrightarrow> ee_id e \<noteq> ee_id e')"
    by blast
  from pairs [rule_format, of 0 2 ?e0 ?e1]
  have ne: "ee_id (the (engineCache example_cache (cache_key ?ext ''a'')))
        \<noteq> ee_id (the (engineCache example_cache (cache_key ?ext ''cc'')))"
    using m by (simp add: k c)
  have "hashed_text ?ext (c_module (example_calls ! 0)) = hashed_text ?ext (c_module (example_calls ! 1))"
    by (simp add: example_calls_def)
  with pairs [rule_format, of 0 1 "the (engineCache example_cache (cache_key ?ext ''a''))"
      "the (engineCache example_cache (cache_key ?ext (c_module (example_calls ! 1))))"]
  have same: "the (engineCache example_cache (cache_key ?ext ''a''))
        = the (engineCache example_cache (cache_key ?ext (c_module (example_calls ! 1))))"
    by (simp add: example_calls_def k c)
  from example_runs sha k c hit miss keep served cd3 same ne show ?thesis
    by (intro conjI)
qed

end
